theory Spec2Isabelle
  imports Complex_Main
begin

section \<open>Numbers, byte buffers and images\<close>

text \<open>
  The engine computes on JavaScript numbers and stores into the \<open>Uint8ClampedArray\<close> of an
  \<open>ImageData\<close>. Numbers are modelled as reals; \<open>None\<close> of type \<open>real option\<close> stands for
  \<open>NaN\<close>, which is what an out-of-range read of a typed array (\<open>undefined\<close>) becomes in
  arithmetic. Rounding error and overflow of IEEE doubles are not modelled.
\<close>

type_synonym number = "real option"

text \<open>The conversion every store into a \<open>Uint8ClampedArray\<close> applies: clamp to [0,255],
  round to the nearest integer, ties to the even one.\<close>

definition ToUint8Clamp :: "real \<Rightarrow> nat" where
  "ToUint8Clamp x =
     (if x \<le> 0 then 0
      else if 255 \<le> x then 255
      else (let f = \<lfloor>x\<rfloor> in
            if x < real_of_int f + 0.5 then nat f
            else if real_of_int f + 0.5 < x then nat (f + 1)
            else if even f then nat f else nat (f + 1)))"

text \<open>A stored \<open>NaN\<close> becomes 0.\<close>

definition stored :: "number \<Rightarrow> nat" where
  "stored v = (case v of None \<Rightarrow> 0 | Some x \<Rightarrow> ToUint8Clamp x)"

text \<open>\<open>d[i]\<close> as a value: \<open>undefined\<close> out of range.\<close>

definition rd :: "nat list \<Rightarrow> nat \<Rightarrow> number" where
  "rd d i = (if i < length d then Some (real (d ! i)) else None)"

text \<open>\<open>d[i] = v\<close>: an out-of-range store into a typed array is ignored, as \<open>list_update\<close> does.\<close>

definition wr :: "nat list \<Rightarrow> nat \<Rightarrow> number \<Rightarrow> nat list" where
  "wr d i v = d[i := stored v]"

text \<open>Arithmetic propagates \<open>NaN\<close>, also through \<open>Math.max\<close> and \<open>Math.min\<close>.\<close>

definition lift2 :: "(real \<Rightarrow> real \<Rightarrow> real) \<Rightarrow> number \<Rightarrow> number \<Rightarrow> number" where
  "lift2 f a b = (case a of None \<Rightarrow> None | Some x \<Rightarrow> (case b of None \<Rightarrow> None | Some y \<Rightarrow> Some (f x y)))"

definition lift3 :: "(real \<Rightarrow> real \<Rightarrow> real \<Rightarrow> real) \<Rightarrow> number \<Rightarrow> number \<Rightarrow> number \<Rightarrow> number" where
  "lift3 f a b c =
     (case a of None \<Rightarrow> None | Some x \<Rightarrow>
        (case b of None \<Rightarrow> None | Some y \<Rightarrow>
           (case c of None \<Rightarrow> None | Some z \<Rightarrow> Some (f x y z))))"

text \<open>\<open>ImageData\<close>: the data are RGBA bytes, row by row.\<close>

record ImageData =
  width :: nat
  height :: nat
  data :: "nat list"

text \<open>What the \<open>ImageData\<close> interface guarantees of every instance: four bytes for each pixel.\<close>

definition wf_image :: "ImageData \<Rightarrow> bool" where
  "wf_image pixels \<longleftrightarrow>
     length (data pixels) = 4 * (width pixels * height pixels) \<and> list_all (\<lambda>c. c \<le> 255) (data pixels)"

text \<open>\<open>for (let i = 0; i < d.length; i += 4)\<close>: the offsets 0, 4, 8, ... below the length,
  which no store changes.\<close>

definition forEachPixel :: "(nat \<Rightarrow> nat list \<Rightarrow> nat list) \<Rightarrow> nat list \<Rightarrow> nat list" where
  "forEachPixel body d = fold body (map (\<lambda>p. 4 * p) [0..<(length d + 3) div 4]) d"

section \<open>Colour conversion (colorUtils)\<close>

definition RGBtoHSV :: "real \<Rightarrow> real \<Rightarrow> real \<Rightarrow> real \<times> real \<times> real" where
  "RGBtoHSV r0 g0 b0 =
     (let r = r0 / 255; g = g0 / 255; b = b0 / 255;
          mx = max (max r g) b;
          mn = min (min r g) b;
          v = mx;
          d = mx - mn;
          s = (if mx = 0 then 0 else d / mx);
          h = (if mx = mn then 0
               else (if mx = r then (g - b) / d + (if g < b then 6 else 0)
                     else if mx = g then (b - r) / d + 2
                     else if mx = b then (r - g) / d + 4
                     else 0) / 6)
      in (h, s, v))"

text \<open>The remainder operator \<open>%\<close> takes the sign of the dividend.\<close>

definition js_rem :: "int \<Rightarrow> int \<Rightarrow> int" where
  "js_rem a b = (if 0 \<le> a then a mod \<bar>b\<bar> else - ((- a) mod \<bar>b\<bar>))"

definition HSVtoRGB :: "real \<Rightarrow> real \<Rightarrow> real \<Rightarrow> real \<times> real \<times> real" where
  "HSVtoRGB h s v =
     (let i = \<lfloor>h * 6\<rfloor>;
          f = h * 6 - real_of_int i;
          p = v * (1 - s);
          q = v * (1 - f * s);
          t = v * (1 - (1 - f) * s);
          m = js_rem i 6;
          rgb = (if m = 0 then (v, t, p)
                 else if m = 1 then (q, v, p)
                 else if m = 2 then (p, v, t)
                 else if m = 3 then (p, q, v)
                 else if m = 4 then (t, p, v)
                 else if m = 5 then (v, p, q)
                 else (0, 0, 0))
      in (case rgb of (r, g, b) \<Rightarrow> (r * 255, g * 255, b * 255)))"

section \<open>Filter operations (filters)\<close>

definition grayscale_step :: "nat \<Rightarrow> nat list \<Rightarrow> nat list" where
  "grayscale_step i d =
     (let r = rd d i; g = rd d (i + 1); b = rd d (i + 2);
          avg = lift3 (\<lambda>r g b. 0.2126 * r + 0.7152 * g + 0.0722 * b) r g b;
          d = wr d (i + 2) avg;
          d = wr d (i + 1) avg;
          d = wr d i avg
      in d)"

definition grayscale :: "ImageData \<Rightarrow> ImageData" where
  "grayscale pixels = pixels\<lparr>data := forEachPixel grayscale_step (data pixels)\<rparr>"

definition sepia_step :: "real \<Rightarrow> nat \<Rightarrow> nat list \<Rightarrow> nat list" where
  "sepia_step adj i d =
     (let r = rd d i; g = rd d (i + 1); b = rd d (i + 2);
          d = wr d i (lift3 (\<lambda>r g b. (r * (1 - (0.607 * adj))) + (g * 0.769 * adj) + (b * 0.189 * adj)) r g b);
          d = wr d (i + 1) (lift3 (\<lambda>r g b. (r * 0.349 * adj) + (g * (1 - (0.314 * adj))) + (b * 0.168 * adj)) r g b);
          d = wr d (i + 2) (lift3 (\<lambda>r g b. (r * 0.272 * adj) + (g * 0.534 * adj) + (b * (1 - (0.869 * adj)))) r g b)
      in d)"

definition sepia :: "ImageData \<Rightarrow> real \<Rightarrow> ImageData" where
  "sepia pixels adj = pixels\<lparr>data := forEachPixel (sepia_step adj) (data pixels)\<rparr>"

definition invert_step :: "nat \<Rightarrow> nat list \<Rightarrow> nat list" where
  "invert_step i d =
     (let d = wr d i (map_option (\<lambda>c. 255 - c) (rd d i));
          d = wr d (i + 1) (map_option (\<lambda>c. 255 - c) (rd d (i + 1)));
          d = wr d (i + 2) (map_option (\<lambda>c. 255 - c) (rd d (i + 2)))
      in d)"

definition invert :: "ImageData \<Rightarrow> ImageData" where
  "invert pixels = pixels\<lparr>data := forEachPixel invert_step (data pixels)\<rparr>"

definition brightness_step :: "real \<Rightarrow> nat \<Rightarrow> nat list \<Rightarrow> nat list" where
  "brightness_step adjValue i d =
     (let d = wr d i (map_option (\<lambda>c. max 0 (min 255 (c + adjValue))) (rd d i));
          d = wr d (i + 1) (map_option (\<lambda>c. max 0 (min 255 (c + adjValue))) (rd d (i + 1)));
          d = wr d (i + 2) (map_option (\<lambda>c. max 0 (min 255 (c + adjValue))) (rd d (i + 2)))
      in d)"

text \<open>\<open>Math.round\<close> rounds halves up, as \<open>round\<close> does.\<close>

definition brightness :: "ImageData \<Rightarrow> real \<Rightarrow> ImageData" where
  "brightness pixels adj0 =
     (let adj = max (- 1) (min 1 adj0);
          adjValue = real_of_int (round (255 * adj))
      in pixels\<lparr>data := forEachPixel (brightness_step adjValue) (data pixels)\<rparr>)"

text \<open>A pixel cut short by the end of the buffer reads \<open>undefined\<close>; then every value of both
  conversions is \<open>NaN\<close> but the hue, and each store is of \<open>NaN\<close>.\<close>

definition hueSaturation_step :: "real \<Rightarrow> nat \<Rightarrow> nat list \<Rightarrow> nat list" where
  "hueSaturation_step adj i d =
     (case rd d i of None \<Rightarrow> wr (wr (wr d i None) (i + 1) None) (i + 2) None
      | Some r \<Rightarrow>
     (case rd d (i + 1) of None \<Rightarrow> wr (wr (wr d i None) (i + 1) None) (i + 2) None
      | Some g \<Rightarrow>
     (case rd d (i + 2) of None \<Rightarrow> wr (wr (wr d i None) (i + 1) None) (i + 2) None
      | Some b \<Rightarrow>
        (case RGBtoHSV r g b of (h, s0, v) \<Rightarrow>
          (let s1 = s0 * adj;
               s = max 0 (min 1 s1)
           in (case HSVtoRGB h s v of (r', g', b') \<Rightarrow>
                 (let d = wr d i (Some r');
                      d = wr d (i + 1) (Some g');
                      d = wr d (i + 2) (Some b')
                  in d)))))))"

definition hueSaturation :: "ImageData \<Rightarrow> real \<Rightarrow> ImageData" where
  "hueSaturation pixels adj = pixels\<lparr>data := forEachPixel (hueSaturation_step adj) (data pixels)\<rparr>"

definition saturation_step :: "real \<Rightarrow> nat \<Rightarrow> nat list \<Rightarrow> nat list" where
  "saturation_step adj i d =
     (let r = rd d i; g = rd d (i + 1); b = rd d (i + 2);
          gray = lift3 (\<lambda>r g b. 0.2989 * r + 0.5870 * g + 0.1140 * b) r g b;
          d = wr d i (lift2 (\<lambda>gray c. max 0 (min 255 (- gray * adj + c * (1 + adj)))) gray (rd d i));
          d = wr d (i + 1) (lift2 (\<lambda>gray c. max 0 (min 255 (- gray * adj + c * (1 + adj)))) gray (rd d (i + 1)));
          d = wr d (i + 2) (lift2 (\<lambda>gray c. max 0 (min 255 (- gray * adj + c * (1 + adj)))) gray (rd d (i + 2)))
      in d)"

definition saturation :: "ImageData \<Rightarrow> real \<Rightarrow> ImageData" where
  "saturation pixels adj0 =
     (let adj = max (- 1) adj0
      in pixels\<lparr>data := forEachPixel (saturation_step adj) (data pixels)\<rparr>)"

text \<open>The contrast factor is a quotient. Its numerator and denominator are named so that the
  one division of the operator is guarded: a zero denominator gives \<open>None\<close>, where JavaScript
  gives \<open>Infinity\<close> (the numerator is \<open>259 * 514\<close> there).\<close>

definition contrast_numerator :: "real \<Rightarrow> real" where
  "contrast_numerator adj = 259 * (adj * 255 + 255)"

definition contrast_denominator :: "real \<Rightarrow> real" where
  "contrast_denominator adj = 255 * (259 - adj * 255)"

definition contrast_factor :: "real \<Rightarrow> real option" where
  "contrast_factor adj =
     (if contrast_denominator adj = 0 then None
      else Some (contrast_numerator adj / contrast_denominator adj))"

text \<open>With the factor \<open>Infinity\<close>, \<open>factor * (c - 128) + 128\<close> is \<open>Infinity\<close> above 128 (clamped
  to 255), \<open>-Infinity\<close> below (clamped to 0) and \<open>NaN\<close> at 128.\<close>

definition contrast_channel :: "real option \<Rightarrow> number \<Rightarrow> number" where
  "contrast_channel factor c =
     (case factor of
        Some k \<Rightarrow> map_option (\<lambda>c. max 0 (min 255 (k * (c - 128) + 128))) c
      | None \<Rightarrow> (case c of None \<Rightarrow> None
                 | Some c \<Rightarrow> if 128 < c then Some 255 else if c < 128 then Some 0 else None))"

definition contrast_step :: "real option \<Rightarrow> nat \<Rightarrow> nat list \<Rightarrow> nat list" where
  "contrast_step factor i d =
     (let d = wr d i (contrast_channel factor (rd d i));
          d = wr d (i + 1) (contrast_channel factor (rd d (i + 1)));
          d = wr d (i + 2) (contrast_channel factor (rd d (i + 2)))
      in d)"

definition contrast :: "ImageData \<Rightarrow> real \<Rightarrow> ImageData" where
  "contrast pixels adj =
     pixels\<lparr>data := forEachPixel (contrast_step (contrast_factor adj)) (data pixels)\<rparr>"

definition colorFilter_step :: "real \<times> real \<times> real \<times> real \<Rightarrow> nat \<Rightarrow> nat list \<Rightarrow> nat list" where
  "colorFilter_step rgbColor i d =
     (case rgbColor of (cr, cg, cb, adj) \<Rightarrow>
       (let d = wr d i (map_option (\<lambda>c. c - (c - cr) * adj) (rd d i));
            d = wr d (i + 1) (map_option (\<lambda>c. c - (c - cg) * adj) (rd d (i + 1)));
            d = wr d (i + 2) (map_option (\<lambda>c. c - (c - cb) * adj) (rd d (i + 2)))
        in d))"

definition colorFilter :: "ImageData \<Rightarrow> real \<times> real \<times> real \<times> real \<Rightarrow> ImageData" where
  "colorFilter pixels rgbColor =
     pixels\<lparr>data := forEachPixel (colorFilter_step rgbColor) (data pixels)\<rparr>"

definition rgbAdjust_step :: "real \<times> real \<times> real \<Rightarrow> nat \<Rightarrow> nat list \<Rightarrow> nat list" where
  "rgbAdjust_step rgbAdj i d =
     (case rgbAdj of (mr, mg, mb) \<Rightarrow>
       (let d = wr d i (map_option (\<lambda>c. max 0 (min 255 (c * mr))) (rd d i));
            d = wr d (i + 1) (map_option (\<lambda>c. max 0 (min 255 (c * mg))) (rd d (i + 1)));
            d = wr d (i + 2) (map_option (\<lambda>c. max 0 (min 255 (c * mb))) (rd d (i + 2)))
        in d))"

definition rgbAdjust :: "ImageData \<Rightarrow> real \<times> real \<times> real \<Rightarrow> ImageData" where
  "rgbAdjust pixels rgbAdj =
     pixels\<lparr>data := forEachPixel (rgbAdjust_step rgbAdj) (data pixels)\<rparr>"

subsection \<open>Convolution\<close>

text \<open>\<open>weights[k]\<close>: \<open>undefined\<close> out of range.\<close>

definition rdw :: "real list \<Rightarrow> nat \<Rightarrow> number" where
  "rdw weights k = (if k < length weights then Some (weights ! k) else None)"

text \<open>The body of the two inner loops: one kernel position \<open>(cy, cx)\<close> of the pixel \<open>(x, y)\<close>.\<close>

definition convolute_tap ::
  "nat list \<Rightarrow> nat \<Rightarrow> nat \<Rightarrow> real list \<Rightarrow> nat \<Rightarrow> nat \<Rightarrow> nat \<Rightarrow> nat \<Rightarrow> nat \<Rightarrow> nat \<Rightarrow>
   number \<times> number \<times> number \<Rightarrow> number \<times> number \<times> number" where
  "convolute_tap d sw sh weights side halfSide y x cy cx acc =
     (case acc of (r, g, b) \<Rightarrow>
       (let scy = int y + int cy - int halfSide;
            scx = int x + int cx - int halfSide
        in if scy \<ge> 0 \<and> scy < int sh \<and> scx \<ge> 0 \<and> scx < int sw then
             (let srcOff = (nat scy * sw + nat scx) * 4;
                  wt = rdw weights (cy * side + cx)
              in (lift3 (\<lambda>r c wt. r + c * wt) r (rd d srcOff) wt,
                  lift3 (\<lambda>g c wt. g + c * wt) g (rd d (srcOff + 1)) wt,
                  lift3 (\<lambda>b c wt. b + c * wt) b (rd d (srcOff + 2)) wt))
           else (r, g, b)))"

text \<open>The two inner loops: the sums of one pixel over the kernel window, from zero.\<close>

definition convolute_window ::
  "nat list \<Rightarrow> nat \<Rightarrow> nat \<Rightarrow> real list \<Rightarrow> nat \<Rightarrow> nat \<Rightarrow> nat \<Rightarrow> nat \<Rightarrow> number \<times> number \<times> number" where
  "convolute_window d sw sh weights side halfSide y x =
     fold (\<lambda>cy acc. fold (\<lambda>cx acc. convolute_tap d sw sh weights side halfSide y x cy cx acc)
                         [0..<side] acc)
          [0..<side] (Some 0, Some 0, Some 0)"

text \<open>The body of the loops over \<open>y\<close> and \<open>x\<close>: it reads \<open>d\<close> and writes \<open>output\<close>.\<close>

definition convolute_pixel ::
  "nat list \<Rightarrow> nat \<Rightarrow> nat \<Rightarrow> real list \<Rightarrow> nat \<Rightarrow> nat \<Rightarrow> nat \<Rightarrow> nat \<Rightarrow> nat list \<Rightarrow> nat list" where
  "convolute_pixel d sw sh weights side halfSide y x output =
     (let dstOff = (y * sw + x) * 4
      in (case convolute_window d sw sh weights side halfSide y x of (r, g, b) \<Rightarrow>
           (let output = wr output dstOff (map_option (\<lambda>r. max 0 (min 255 r)) r);
                output = wr output (dstOff + 1) (map_option (\<lambda>g. max 0 (min 255 g)) g);
                output = wr output (dstOff + 2) (map_option (\<lambda>b. max 0 (min 255 b)) b);
                output = wr output (dstOff + 3) (rd d (dstOff + 3))
            in output)))"

definition convolute :: "ImageData \<Rightarrow> real list \<Rightarrow> ImageData" where
  "convolute pixels weights =
     (let side = nat (round (sqrt (real (length weights))));
          halfSide = side div 2;
          d = data pixels;
          sw = width pixels;
          sh = height pixels;
          output = replicate (length d) 0;
          output = fold (\<lambda>y output. fold (\<lambda>x output. convolute_pixel d sw sh weights side halfSide y x output)
                                         [0..<sw] output)
                        [0..<sh] output;
          d = fold (\<lambda>i d. wr d i (rd output i)) [0..<length d] d
      in pixels\<lparr>data := d\<rparr>)"

text \<open>A caller that omits \<open>amount\<close> passes 1 to \<open>sharpen\<close>, 0.5 to \<open>vignette\<close> and 20 to
  \<open>noise\<close>.\<close>

definition sharpen :: "ImageData \<Rightarrow> real \<Rightarrow> ImageData" where
  "sharpen pixels amount =
     convolute pixels
       [0, - 1 * amount, 0,
        - 1 * amount, 1 + 4 * amount, - 1 * amount,
        0, - 1 * amount, 0]"

subsection \<open>Vignette and noise\<close>

text \<open>The loop body runs only when the image has a pixel, so \<open>maxDist\<close> is positive in it.\<close>

definition vignette_step :: "nat \<Rightarrow> real \<Rightarrow> real \<Rightarrow> real \<Rightarrow> real \<Rightarrow> nat \<Rightarrow> nat \<Rightarrow> nat list \<Rightarrow> nat list" where
  "vignette_step w cx cy maxDist amount y x d =
     (let i = (y * w + x) * 4;
          dx = real x - cx;
          dy = real y - cy;
          dist = sqrt (dx * dx + dy * dy);
          vignetteFactor = 1 - (dist / maxDist) * amount;
          d = wr d i (map_option (\<lambda>c. max 0 (c * vignetteFactor)) (rd d i));
          d = wr d (i + 1) (map_option (\<lambda>c. max 0 (c * vignetteFactor)) (rd d (i + 1)));
          d = wr d (i + 2) (map_option (\<lambda>c. max 0 (c * vignetteFactor)) (rd d (i + 2)))
      in d)"

definition vignette :: "ImageData \<Rightarrow> real \<Rightarrow> ImageData" where
  "vignette pixels amount =
     (let d = data pixels;
          w = width pixels;
          h = height pixels;
          cx = real w / 2;
          cy = real h / 2;
          maxDist = sqrt (cx * cx + cy * cy);
          d = fold (\<lambda>y d. fold (\<lambda>x d. vignette_step w cx cy maxDist amount y x d) [0..<w] d) [0..<h] d
      in pixels\<lparr>data := d\<rparr>)"

text \<open>\<open>Math.random()\<close> is drawn once for each pixel, in order: \<open>random p\<close> is the draw of the
  pixel at offset \<open>4 * p\<close>.\<close>

definition noise_step :: "(nat \<Rightarrow> real) \<Rightarrow> real \<Rightarrow> nat \<Rightarrow> nat list \<Rightarrow> nat list" where
  "noise_step random amount i d =
     (let noiseVal = (random (i div 4) - 0.5) * amount;
          d = wr d i (map_option (\<lambda>c. max 0 (min 255 (c + noiseVal))) (rd d i));
          d = wr d (i + 1) (map_option (\<lambda>c. max 0 (min 255 (c + noiseVal))) (rd d (i + 1)));
          d = wr d (i + 2) (map_option (\<lambda>c. max 0 (min 255 (c + noiseVal))) (rd d (i + 2)))
      in d)"

definition noise :: "(nat \<Rightarrow> real) \<Rightarrow> ImageData \<Rightarrow> real \<Rightarrow> ImageData" where
  "noise random pixels amount =
     pixels\<lparr>data := forEachPixel (noise_step random amount) (data pixels)\<rparr>"

section \<open>The filter catalog (instaFilters)\<close>

type_synonym FilterFunction = "ImageData \<Rightarrow> ImageData"

datatype Category = google | vintage | bw | warm | cool | vivid | soft | artistic

text \<open>A preset, without its Korean name and its description, which no computation reads.\<close>

record FilterPreset =
  preset_id :: string
  preset_name :: string
  preset_category :: Category
  preset_apply :: FilterFunction

definition normal :: FilterFunction where
  "normal pixels = pixels"

definition clarendon :: FilterFunction where
  "clarendon pixels =
     (let pixels = brightness pixels 0.1;
          pixels = contrast pixels 0.1;
          pixels = saturation pixels 0.15
      in pixels)"

definition gingham :: FilterFunction where
  "gingham pixels =
     (let pixels = sepia pixels 0.04;
          pixels = contrast pixels (- 0.15)
      in pixels)"

definition reyes :: FilterFunction where
  "reyes pixels =
     (let pixels = sepia pixels 0.4;
          pixels = brightness pixels 0.13;
          pixels = contrast pixels (- 0.05)
      in pixels)"

definition stinson :: FilterFunction where
  "stinson pixels =
     (let pixels = brightness pixels 0.1;
          pixels = sepia pixels 0.3
      in pixels)"

definition earlybird :: FilterFunction where
  "earlybird pixels =
     (let pixels = colorFilter pixels (255, 165, 40, 0.2)
      in pixels)"

definition toaster :: FilterFunction where
  "toaster pixels =
     (let pixels = sepia pixels 0.1;
          pixels = colorFilter pixels (255, 145, 0, 0.2)
      in pixels)"

definition walden :: FilterFunction where
  "walden pixels =
     (let pixels = brightness pixels 0.1;
          pixels = colorFilter pixels (255, 255, 0, 0.2)
      in pixels)"

definition f1977 :: FilterFunction where
  "f1977 pixels =
     (let pixels = colorFilter pixels (255, 25, 0, 0.15);
          pixels = brightness pixels 0.1
      in pixels)"

definition brooklyn :: FilterFunction where
  "brooklyn pixels =
     (let pixels = colorFilter pixels (25, 240, 252, 0.05);
          pixels = sepia pixels 0.3
      in pixels)"

definition moon :: FilterFunction where
  "moon pixels =
     (let pixels = grayscale pixels ;
          pixels = contrast pixels (- 0.04);
          pixels = brightness pixels 0.1
      in pixels)"

definition willow :: FilterFunction where
  "willow pixels =
     (let pixels = grayscale pixels ;
          pixels = colorFilter pixels (100, 28, 210, 0.03);
          pixels = brightness pixels 0.1
      in pixels)"

definition inkwell :: FilterFunction where
  "inkwell pixels =
     (let pixels = grayscale pixels 
      in pixels)"

definition lark :: FilterFunction where
  "lark pixels =
     (let pixels = brightness pixels 0.08;
          pixels = rgbAdjust pixels (1, 1.03, 1.05);
          pixels = saturation pixels 0.12
      in pixels)"

definition juno :: FilterFunction where
  "juno pixels =
     (let pixels = rgbAdjust pixels (1.01, 1.04, 1);
          pixels = saturation pixels 0.3
      in pixels)"

definition amaro :: FilterFunction where
  "amaro pixels =
     (let pixels = saturation pixels 0.3;
          pixels = brightness pixels 0.15
      in pixels)"

definition mayfair :: FilterFunction where
  "mayfair pixels =
     (let pixels = colorFilter pixels (230, 115, 108, 0.05);
          pixels = saturation pixels 0.15
      in pixels)"

definition rise :: FilterFunction where
  "rise pixels =
     (let pixels = colorFilter pixels (255, 170, 0, 0.1);
          pixels = brightness pixels 0.09;
          pixels = saturation pixels 0.1
      in pixels)"

definition valencia :: FilterFunction where
  "valencia pixels =
     (let pixels = colorFilter pixels (255, 225, 80, 0.08);
          pixels = saturation pixels 0.1;
          pixels = contrast pixels 0.05
      in pixels)"

definition kelvin :: FilterFunction where
  "kelvin pixels =
     (let pixels = colorFilter pixels (255, 140, 0, 0.1);
          pixels = rgbAdjust pixels (1.15, 1.05, 1);
          pixels = saturation pixels 0.35
      in pixels)"

definition nashville :: FilterFunction where
  "nashville pixels =
     (let pixels = colorFilter pixels (220, 115, 188, 0.12);
          pixels = contrast pixels (- 0.05)
      in pixels)"

definition vesper :: FilterFunction where
  "vesper pixels =
     (let pixels = colorFilter pixels (255, 225, 0, 0.05);
          pixels = brightness pixels 0.06;
          pixels = contrast pixels 0.06
      in pixels)"

definition ashby :: FilterFunction where
  "ashby pixels =
     (let pixels = colorFilter pixels (255, 160, 25, 0.1);
          pixels = brightness pixels 0.1
      in pixels)"

definition charmes :: FilterFunction where
  "charmes pixels =
     (let pixels = colorFilter pixels (255, 50, 80, 0.12);
          pixels = contrast pixels 0.05
      in pixels)"

definition ginza :: FilterFunction where
  "ginza pixels =
     (let pixels = sepia pixels 0.06;
          pixels = brightness pixels 0.1
      in pixels)"

definition hudson :: FilterFunction where
  "hudson pixels =
     (let pixels = rgbAdjust pixels (1, 1, 1.25);
          pixels = contrast pixels 0.1;
          pixels = brightness pixels 0.15
      in pixels)"

definition slumber :: FilterFunction where
  "slumber pixels =
     (let pixels = brightness pixels 0.1;
          pixels = saturation pixels (- 0.5)
      in pixels)"

definition aden :: FilterFunction where
  "aden pixels =
     (let pixels = colorFilter pixels (228, 130, 225, 0.13);
          pixels = saturation pixels (- 0.2)
      in pixels)"

definition perpetua :: FilterFunction where
  "perpetua pixels =
     (let pixels = rgbAdjust pixels (1.05, 1.1, 1)
      in pixels)"

definition crema :: FilterFunction where
  "crema pixels =
     (let pixels = rgbAdjust pixels (1.04, 1, 1.02);
          pixels = saturation pixels (- 0.05)
      in pixels)"

definition ludwig :: FilterFunction where
  "ludwig pixels =
     (let pixels = brightness pixels 0.05;
          pixels = saturation pixels (- 0.03)
      in pixels)"

definition xpro2 :: FilterFunction where
  "xpro2 pixels =
     (let pixels = colorFilter pixels (255, 255, 0, 0.07);
          pixels = saturation pixels 0.2;
          pixels = contrast pixels 0.15
      in pixels)"

definition lofi :: FilterFunction where
  "lofi pixels =
     (let pixels = contrast pixels 0.15;
          pixels = saturation pixels 0.2
      in pixels)"

definition hefe :: FilterFunction where
  "hefe pixels =
     (let pixels = contrast pixels 0.1;
          pixels = saturation pixels 0.15
      in pixels)"

definition brannan :: FilterFunction where
  "brannan pixels =
     (let pixels = contrast pixels 0.2;
          pixels = colorFilter pixels (140, 10, 185, 0.1)
      in pixels)"

definition sutro :: FilterFunction where
  "sutro pixels =
     (let pixels = brightness pixels (- 0.1);
          pixels = saturation pixels (- 0.1)
      in pixels)"

definition skyline :: FilterFunction where
  "skyline pixels =
     (let pixels = saturation pixels 0.35;
          pixels = brightness pixels 0.1
      in pixels)"

definition dogpatch :: FilterFunction where
  "dogpatch pixels =
     (let pixels = contrast pixels 0.15;
          pixels = brightness pixels 0.1
      in pixels)"

definition maven :: FilterFunction where
  "maven pixels =
     (let pixels = colorFilter pixels (225, 240, 0, 0.1);
          pixels = saturation pixels 0.25;
          pixels = contrast pixels 0.05
      in pixels)"

definition helena :: FilterFunction where
  "helena pixels =
     (let pixels = colorFilter pixels (208, 208, 86, 0.2);
          pixels = contrast pixels 0.15
      in pixels)"

definition sierra :: FilterFunction where
  "sierra pixels =
     (let pixels = contrast pixels (- 0.15);
          pixels = saturation pixels 0.1
      in pixels)"

definition googleStyle :: FilterFunction where
  "googleStyle pixels =
     (let pixels = saturation pixels 0.35;
          pixels = contrast pixels 0.12;
          pixels = rgbAdjust pixels (0.98, 1.0, 1.12);
          pixels = brightness pixels 0.05;
          pixels = sharpen pixels 0.3
      in pixels)"

definition googlePop :: FilterFunction where
  "googlePop pixels =
     (let pixels = saturation pixels 0.5;
          pixels = contrast pixels 0.18;
          pixels = rgbAdjust pixels (1.02, 1.05, 1.15);
          pixels = sharpen pixels 0.4
      in pixels)"

definition googleVivid :: FilterFunction where
  "googleVivid pixels =
     (let pixels = saturation pixels 0.6;
          pixels = contrast pixels 0.2;
          pixels = rgbAdjust pixels (1.0, 1.02, 1.18);
          pixels = brightness pixels 0.03;
          pixels = sharpen pixels 0.5
      in pixels)"

definition googleNatural :: FilterFunction where
  "googleNatural pixels =
     (let pixels = saturation pixels 0.2;
          pixels = contrast pixels 0.08;
          pixels = rgbAdjust pixels (1.0, 1.02, 1.08);
          pixels = sharpen pixels 0.2
      in pixels)"

definition googleHDR :: FilterFunction where
  "googleHDR pixels =
     (let pixels = saturation pixels 0.4;
          pixels = contrast pixels 0.22;
          pixels = rgbAdjust pixels (1.02, 1.04, 1.12);
          pixels = brightness pixels (- 0.02);
          pixels = sharpen pixels 0.35
      in pixels)"

definition filterPresets :: "FilterPreset list" where
  "filterPresets =
    [\<lparr>preset_id = ''normal'', preset_name = ''Normal'', preset_category = soft, preset_apply = normal\<rparr>,
     \<lparr>preset_id = ''google-style'', preset_name = ''Google Style'', preset_category = google, preset_apply = googleStyle\<rparr>,
     \<lparr>preset_id = ''google-pop'', preset_name = ''Google Pop'', preset_category = google, preset_apply = googlePop\<rparr>,
     \<lparr>preset_id = ''google-vivid'', preset_name = ''Google Vivid'', preset_category = google, preset_apply = googleVivid\<rparr>,
     \<lparr>preset_id = ''google-natural'', preset_name = ''Google Natural'', preset_category = google, preset_apply = googleNatural\<rparr>,
     \<lparr>preset_id = ''google-hdr'', preset_name = ''Google HDR'', preset_category = google, preset_apply = googleHDR\<rparr>,
     \<lparr>preset_id = ''clarendon'', preset_name = ''Clarendon'', preset_category = vintage, preset_apply = clarendon\<rparr>,
     \<lparr>preset_id = ''gingham'', preset_name = ''Gingham'', preset_category = vintage, preset_apply = gingham\<rparr>,
     \<lparr>preset_id = ''reyes'', preset_name = ''Reyes'', preset_category = vintage, preset_apply = reyes\<rparr>,
     \<lparr>preset_id = ''stinson'', preset_name = ''Stinson'', preset_category = vintage, preset_apply = stinson\<rparr>,
     \<lparr>preset_id = ''earlybird'', preset_name = ''Earlybird'', preset_category = vintage, preset_apply = earlybird\<rparr>,
     \<lparr>preset_id = ''toaster'', preset_name = ''Toaster'', preset_category = vintage, preset_apply = toaster\<rparr>,
     \<lparr>preset_id = ''walden'', preset_name = ''Walden'', preset_category = vintage, preset_apply = walden\<rparr>,
     \<lparr>preset_id = ''1977'', preset_name = ''1977'', preset_category = vintage, preset_apply = f1977\<rparr>,
     \<lparr>preset_id = ''brooklyn'', preset_name = ''Brooklyn'', preset_category = vintage, preset_apply = brooklyn\<rparr>,
     \<lparr>preset_id = ''moon'', preset_name = ''Moon'', preset_category = bw, preset_apply = moon\<rparr>,
     \<lparr>preset_id = ''willow'', preset_name = ''Willow'', preset_category = bw, preset_apply = willow\<rparr>,
     \<lparr>preset_id = ''inkwell'', preset_name = ''Inkwell'', preset_category = bw, preset_apply = inkwell\<rparr>,
     \<lparr>preset_id = ''lark'', preset_name = ''Lark'', preset_category = warm, preset_apply = lark\<rparr>,
     \<lparr>preset_id = ''juno'', preset_name = ''Juno'', preset_category = warm, preset_apply = juno\<rparr>,
     \<lparr>preset_id = ''amaro'', preset_name = ''Amaro'', preset_category = warm, preset_apply = amaro\<rparr>,
     \<lparr>preset_id = ''mayfair'', preset_name = ''Mayfair'', preset_category = warm, preset_apply = mayfair\<rparr>,
     \<lparr>preset_id = ''rise'', preset_name = ''Rise'', preset_category = warm, preset_apply = rise\<rparr>,
     \<lparr>preset_id = ''valencia'', preset_name = ''Valencia'', preset_category = warm, preset_apply = valencia\<rparr>,
     \<lparr>preset_id = ''kelvin'', preset_name = ''Kelvin'', preset_category = warm, preset_apply = kelvin\<rparr>,
     \<lparr>preset_id = ''nashville'', preset_name = ''Nashville'', preset_category = warm, preset_apply = nashville\<rparr>,
     \<lparr>preset_id = ''vesper'', preset_name = ''Vesper'', preset_category = warm, preset_apply = vesper\<rparr>,
     \<lparr>preset_id = ''ashby'', preset_name = ''Ashby'', preset_category = warm, preset_apply = ashby\<rparr>,
     \<lparr>preset_id = ''charmes'', preset_name = ''Charmes'', preset_category = warm, preset_apply = charmes\<rparr>,
     \<lparr>preset_id = ''ginza'', preset_name = ''Ginza'', preset_category = warm, preset_apply = ginza\<rparr>,
     \<lparr>preset_id = ''hudson'', preset_name = ''Hudson'', preset_category = cool, preset_apply = hudson\<rparr>,
     \<lparr>preset_id = ''slumber'', preset_name = ''Slumber'', preset_category = cool, preset_apply = slumber\<rparr>,
     \<lparr>preset_id = ''aden'', preset_name = ''Aden'', preset_category = cool, preset_apply = aden\<rparr>,
     \<lparr>preset_id = ''perpetua'', preset_name = ''Perpetua'', preset_category = cool, preset_apply = perpetua\<rparr>,
     \<lparr>preset_id = ''crema'', preset_name = ''Crema'', preset_category = cool, preset_apply = crema\<rparr>,
     \<lparr>preset_id = ''ludwig'', preset_name = ''Ludwig'', preset_category = cool, preset_apply = ludwig\<rparr>,
     \<lparr>preset_id = ''xpro2'', preset_name = ''X-Pro II'', preset_category = vivid, preset_apply = xpro2\<rparr>,
     \<lparr>preset_id = ''lofi'', preset_name = ''Lo-Fi'', preset_category = vivid, preset_apply = lofi\<rparr>,
     \<lparr>preset_id = ''hefe'', preset_name = ''Hefe'', preset_category = vivid, preset_apply = hefe\<rparr>,
     \<lparr>preset_id = ''brannan'', preset_name = ''Brannan'', preset_category = vivid, preset_apply = brannan\<rparr>,
     \<lparr>preset_id = ''sutro'', preset_name = ''Sutro'', preset_category = vivid, preset_apply = sutro\<rparr>,
     \<lparr>preset_id = ''skyline'', preset_name = ''Skyline'', preset_category = vivid, preset_apply = skyline\<rparr>,
     \<lparr>preset_id = ''dogpatch'', preset_name = ''Dogpatch'', preset_category = vivid, preset_apply = dogpatch\<rparr>,
     \<lparr>preset_id = ''maven'', preset_name = ''Maven'', preset_category = vivid, preset_apply = maven\<rparr>,
     \<lparr>preset_id = ''helena'', preset_name = ''Helena'', preset_category = vivid, preset_apply = helena\<rparr>,
     \<lparr>preset_id = ''sierra'', preset_name = ''Sierra'', preset_category = soft, preset_apply = sierra\<rparr>]"

definition getFilterById :: "string \<Rightarrow> FilterPreset option" where
  "getFilterById ident = find (\<lambda>f. preset_id f = ident) filterPresets"

section \<open>Applying a filter to an image (imageProcessing)\<close>

text \<open>
  What the browser answers to one call: the pixels \<open>getImageData\<close> returns for the loaded
  image (\<open>None\<close> when loading fails), whether the canvas has a 2d context, and whether
  \<open>toBlob\<close> yields a blob. The result of a call is the rejection's error or the image put
  back on the canvas, which the blob encodes.
\<close>

record Browser =
  loaded :: "ImageData option"
  context2d :: bool
  blob :: bool

datatype error = CanvasContextNotAvailable | FailedToCreateBlob | FailedToLoadImage

text \<open>The blend of the original bytes with the filtered ones, one pixel.\<close>

definition blend_step :: "real \<Rightarrow> nat list \<Rightarrow> nat \<Rightarrow> nat list \<Rightarrow> nat list" where
  "blend_step strength originalData i d =
     (let d = wr d i (lift2 (\<lambda>orig c. orig * (1 - strength) + c * strength) (rd originalData i) (rd d i));
          d = wr d (i + 1) (lift2 (\<lambda>orig c. orig * (1 - strength) + c * strength)
                               (rd originalData (i + 1)) (rd d (i + 1)));
          d = wr d (i + 2) (lift2 (\<lambda>orig c. orig * (1 - strength) + c * strength)
                               (rd originalData (i + 2)) (rd d (i + 2)))
      in d)"

definition blend :: "nat list \<Rightarrow> ImageData \<Rightarrow> real \<Rightarrow> ImageData" where
  "blend originalData imageData strength =
     imageData\<lparr>data := forEachPixel (blend_step strength originalData) (data imageData)\<rparr>"

text \<open>The part of \<open>applyFilterToImage\<close> between \<open>getImageData\<close> and \<open>putImageData\<close>.\<close>

definition applyFilter :: "ImageData \<Rightarrow> string \<Rightarrow> real \<Rightarrow> ImageData" where
  "applyFilter imageData filterId strength =
     (if filterId \<noteq> ''normal'' then
        (case getFilterById filterId of
           Some preset \<Rightarrow>
             (if strength < 1 then
                (let originalData = data imageData;
                     imageData = preset_apply preset imageData
                 in blend originalData imageData strength)
              else preset_apply preset imageData)
         | None \<Rightarrow> imageData)
      else imageData)"

text \<open>A caller that omits \<open>strength\<close> passes 1.\<close>

definition applyFilterToImage :: "Browser \<Rightarrow> string \<Rightarrow> real \<Rightarrow> error + ImageData" where
  "applyFilterToImage browser filterId strength =
     (case loaded browser of
        None \<Rightarrow> Inl FailedToLoadImage
      | Some imageData \<Rightarrow>
          if \<not> context2d browser then Inl CanvasContextNotAvailable
          else (let imageData = applyFilter imageData filterId strength
                in if blob browser then Inr imageData else Inl FailedToCreateBlob))"

section \<open>The arithmetic of the machine\<close>

text \<open>
  The numbers of the program are IEEE doubles: every sum, difference, product and quotient is
  the exact result rounded to the nearest double. Where a result depends on that rounding the
  code is modelled a second time, with the arithmetic as a parameter; the definitions above
  are the instance that does not round.
\<close>

subsection \<open>The convolution over an arithmetic\<close>

text \<open>
  An arithmetic: the number of a byte, NaN, the sum and the product of two numbers,
  \<open>Math.max(0, Math.min(255, v))\<close>, and the byte a \<open>Uint8ClampedArray\<close> stores for a number.
\<close>

record 'n arithmetic =
  js_num :: "nat \<Rightarrow> 'n"
  js_nan :: 'n
  js_add :: "'n \<Rightarrow> 'n \<Rightarrow> 'n"
  js_mul :: "'n \<Rightarrow> 'n \<Rightarrow> 'n"
  js_clamp :: "'n \<Rightarrow> 'n"
  js_byte :: "'n \<Rightarrow> nat"

text \<open>Reading a buffer or the weights out of range gives \<open>undefined\<close>, which is NaN in
  arithmetic; a store converts the number to a byte.\<close>

definition rd_in :: "'n arithmetic \<Rightarrow> nat list \<Rightarrow> nat \<Rightarrow> 'n" where
  "rd_in A d i = (if i < length d then js_num A (d ! i) else js_nan A)"

definition rdw_in :: "'n arithmetic \<Rightarrow> 'n list \<Rightarrow> nat \<Rightarrow> 'n" where
  "rdw_in A weights k = (if k < length weights then weights ! k else js_nan A)"

definition wr_in :: "'n arithmetic \<Rightarrow> nat list \<Rightarrow> nat \<Rightarrow> 'n \<Rightarrow> nat list" where
  "wr_in A d i v = d[i := js_byte A v]"

text \<open>
  \<open>convolute\<close> (part_001, lines 156 to 200) over an arithmetic: the loops, the tests, the reads
  and the stores of \<open>convolute\<close> above, with \<open>r += d[srcOff] * wt\<close> as the sum and the product
  of the arithmetic, taken in the order of the loops.
\<close>

definition convolute_tap_in ::
  "'n arithmetic \<Rightarrow> nat list \<Rightarrow> nat \<Rightarrow> nat \<Rightarrow> 'n list \<Rightarrow> nat \<Rightarrow> nat \<Rightarrow> nat \<Rightarrow> nat \<Rightarrow> nat \<Rightarrow> nat \<Rightarrow>
   'n \<times> 'n \<times> 'n \<Rightarrow> 'n \<times> 'n \<times> 'n" where
  "convolute_tap_in A d sw sh weights side halfSide y x cy cx acc =
     (case acc of (r, g, b) \<Rightarrow>
       (let scy = int y + int cy - int halfSide;
            scx = int x + int cx - int halfSide
        in if scy \<ge> 0 \<and> scy < int sh \<and> scx \<ge> 0 \<and> scx < int sw then
             (let srcOff = (nat scy * sw + nat scx) * 4;
                  wt = rdw_in A weights (cy * side + cx)
              in (js_add A r (js_mul A (rd_in A d srcOff) wt),
                  js_add A g (js_mul A (rd_in A d (srcOff + 1)) wt),
                  js_add A b (js_mul A (rd_in A d (srcOff + 2)) wt)))
           else (r, g, b)))"

definition convolute_window_in ::
  "'n arithmetic \<Rightarrow> nat list \<Rightarrow> nat \<Rightarrow> nat \<Rightarrow> 'n list \<Rightarrow> nat \<Rightarrow> nat \<Rightarrow> nat \<Rightarrow> nat \<Rightarrow> 'n \<times> 'n \<times> 'n" where
  "convolute_window_in A d sw sh weights side halfSide y x =
     fold (\<lambda>cy acc. fold (\<lambda>cx acc. convolute_tap_in A d sw sh weights side halfSide y x cy cx acc)
                         [0..<side] acc)
          [0..<side] (js_num A 0, js_num A 0, js_num A 0)"

definition convolute_pixel_in ::
  "'n arithmetic \<Rightarrow> nat list \<Rightarrow> nat \<Rightarrow> nat \<Rightarrow> 'n list \<Rightarrow> nat \<Rightarrow> nat \<Rightarrow> nat \<Rightarrow> nat \<Rightarrow> nat list \<Rightarrow> nat list" where
  "convolute_pixel_in A d sw sh weights side halfSide y x output =
     (let dstOff = (y * sw + x) * 4
      in (case convolute_window_in A d sw sh weights side halfSide y x of (r, g, b) \<Rightarrow>
           (let output = wr_in A output dstOff (js_clamp A r);
                output = wr_in A output (dstOff + 1) (js_clamp A g);
                output = wr_in A output (dstOff + 2) (js_clamp A b);
                output = wr_in A output (dstOff + 3) (rd_in A d (dstOff + 3))
            in output)))"

definition convolute_in :: "'n arithmetic \<Rightarrow> ImageData \<Rightarrow> 'n list \<Rightarrow> ImageData" where
  "convolute_in A pixels weights =
     (let side = nat (round (sqrt (real (length weights))));
          halfSide = side div 2;
          d = data pixels;
          sw = width pixels;
          sh = height pixels;
          output = replicate (length d) 0;
          output = fold (\<lambda>y output. fold (\<lambda>x output.
                           convolute_pixel_in A d sw sh weights side halfSide y x output)
                         [0..<sw] output)
                        [0..<sh] output;
          d = fold (\<lambda>i d. wr_in A d i (rd_in A output i)) [0..<length d] d
      in pixels\<lparr>data := d\<rparr>)"

text \<open>The arithmetic of the definitions above, and the one that rounds every sum and product
  with \<open>rnd\<close>.\<close>

definition exact_arithmetic :: "number arithmetic" where
  "exact_arithmetic =
     \<lparr>js_num = (\<lambda>b. Some (real b)), js_nan = None, js_add = lift2 (+), js_mul = lift2 (*),
      js_clamp = map_option (\<lambda>v. max 0 (min 255 v)), js_byte = stored\<rparr>"

definition rounded_arithmetic :: "(real \<Rightarrow> real) \<Rightarrow> number arithmetic" where
  "rounded_arithmetic rnd =
     \<lparr>js_num = (\<lambda>b. Some (real b)), js_nan = None,
      js_add = lift2 (\<lambda>a b. rnd (a + b)), js_mul = lift2 (\<lambda>a b. rnd (a * b)),
      js_clamp = map_option (\<lambda>v. max 0 (min 255 v)), js_byte = stored\<rparr>"

subsection \<open>The colour conversions with rounding\<close>

text \<open>
  \<open>RGBtoHSV\<close> and \<open>HSVtoRGB\<close> (part_000, lines 13 to 72) with every sum, difference, product
  and quotient followed by the rounding \<open>rnd\<close>. \<open>Math.max\<close>, \<open>Math.min\<close>, \<open>Math.floor\<close>, the
  remainder of an integer and the comparisons are exact. The code divides by \<open>max\<close> when it
  is not 0 and by \<open>d\<close> when \<open>max\<close> differs from \<open>min\<close>.
\<close>

definition RGBtoHSV_rounded :: "(real \<Rightarrow> real) \<Rightarrow> real \<Rightarrow> real \<Rightarrow> real \<Rightarrow> real \<times> real \<times> real" where
  "RGBtoHSV_rounded rnd r0 g0 b0 =
     (let r = rnd (r0 / 255); g = rnd (g0 / 255); b = rnd (b0 / 255);
          mx = max (max r g) b;
          mn = min (min r g) b;
          v = mx;
          d = rnd (mx - mn);
          s = (if mx = 0 then 0 else rnd (d / mx));
          h = (if mx = mn then 0
               else rnd ((if mx = r then rnd (rnd (rnd (g - b) / d) + (if g < b then 6 else 0))
                          else if mx = g then rnd (rnd (rnd (b - r) / d) + 2)
                          else if mx = b then rnd (rnd (rnd (r - g) / d) + 4)
                          else 0) / 6))
      in (h, s, v))"

definition HSVtoRGB_rounded :: "(real \<Rightarrow> real) \<Rightarrow> real \<Rightarrow> real \<Rightarrow> real \<Rightarrow> real \<times> real \<times> real" where
  "HSVtoRGB_rounded rnd h s v =
     (let h6 = rnd (h * 6);
          i = \<lfloor>h6\<rfloor>;
          f = rnd (h6 - real_of_int i);
          p = rnd (v * rnd (1 - s));
          q = rnd (v * rnd (1 - rnd (f * s)));
          t = rnd (v * rnd (1 - rnd (rnd (1 - f) * s)));
          m = js_rem i 6;
          rgb = (if m = 0 then (v, t, p)
                 else if m = 1 then (q, v, p)
                 else if m = 2 then (p, v, t)
                 else if m = 3 then (p, q, v)
                 else if m = 4 then (t, p, v)
                 else if m = 5 then (v, p, q)
                 else (0, 0, 0))
      in (case rgb of (r, g, b) \<Rightarrow> (rnd (r * 255), rnd (g * 255), rnd (b * 255))))"

section \<open>Properties of buffers and operators\<close>

text \<open>The alpha bytes of two buffers agree.\<close>

definition alpha_indices :: "nat list \<Rightarrow> nat list" where
  "alpha_indices d = filter (\<lambda>j. j mod 4 = 3) [0..<length d]"

definition same_alpha :: "nat list \<Rightarrow> nat list \<Rightarrow> bool" where
  "same_alpha d d' \<longleftrightarrow> length d' = length d \<and> list_all (\<lambda>j. d' ! j = d ! j) (alpha_indices d)"

text \<open>Every R, G and B byte of an image is at most 255 (a \<open>nat\<close> is at least 0).\<close>

definition colour_indices :: "nat list \<Rightarrow> nat list" where
  "colour_indices d = filter (\<lambda>j. j mod 4 \<noteq> 3) [0..<length d]"

definition rgb_in_range :: "ImageData \<Rightarrow> bool" where
  "rgb_in_range pixels \<longleftrightarrow> list_all (\<lambda>j. data pixels ! j \<le> 255) (colour_indices (data pixels))"

text \<open>A loop body that leaves the alpha bytes alone and keeps bytes within range.\<close>

definition rgb_only :: "(nat list \<Rightarrow> nat list) \<Rightarrow> bool" where
  "rgb_only f \<longleftrightarrow>
     (\<forall>d. same_alpha d (f d) \<and> (list_all (\<lambda>c. c \<le> 255) d \<longrightarrow> list_all (\<lambda>c. c \<le> 255) (f d)))"

text \<open>\<open>out\<close> is an image of the size and with the alpha bytes of \<open>pixels\<close>.\<close>

definition frame :: "ImageData \<Rightarrow> ImageData \<Rightarrow> bool" where
  "frame pixels out \<longleftrightarrow>
     wf_image out \<and> width out = width pixels \<and> height out = height pixels \<and>
     same_alpha (data pixels) (data out)"

text \<open>The byte at index \<open>j\<close> of the buffer the convolution returns, for any list of weights.\<close>

definition convolute_out :: "ImageData \<Rightarrow> real list \<Rightarrow> nat \<Rightarrow> nat" where
  "convolute_out pixels weights j =
     (let side = nat (round (sqrt (real (length weights))));
          p = j div 4
      in (case convolute_window (data pixels) (width pixels) (height pixels) weights side (side div 2)
                 (p div width pixels) (p mod width pixels) of
            (r, g, b) \<Rightarrow>
              if j mod 4 = 0 then stored (map_option (\<lambda>r. max 0 (min 255 r)) r)
              else if j mod 4 = 1 then stored (map_option (\<lambda>g. max 0 (min 255 g)) g)
              else if j mod 4 = 2 then stored (map_option (\<lambda>b. max 0 (min 255 b)) b)
              else data pixels ! j))"

section \<open>The convolution as the specification words it\<close>

text \<open>The bytes an arithmetic stores are bytes, and the number of a byte is stored as that
  byte.\<close>

definition stores_bytes :: "'n arithmetic \<Rightarrow> bool" where
  "stores_bytes A \<longleftrightarrow> (\<forall>v. js_byte A v \<le> 255) \<and> (\<forall>b\<le>255. js_byte A (js_num A b) = b)"

text \<open>
  The positions \<open>(ky, kx)\<close> of the \<open>k\<close> by \<open>k\<close> window of the pixel \<open>(x, y)\<close> whose source pixel
  \<open>(x + kx - k div 2, y + ky - k div 2)\<close> lies in the image, row by row. The sum of a channel
  adds, in that order and starting from 0, the source channel times the weight of the
  position; a position outside the image adds nothing.
\<close>

definition in_window :: "nat \<Rightarrow> nat \<Rightarrow> nat \<Rightarrow> nat \<Rightarrow> nat \<Rightarrow> nat \<times> nat \<Rightarrow> bool" where
  "in_window sw sh k x y q =
     (case q of (ky, kx) \<Rightarrow>
        0 \<le> int y + int ky - int (k div 2) \<and> int y + int ky - int (k div 2) < int sh \<and>
        0 \<le> int x + int kx - int (k div 2) \<and> int x + int kx - int (k div 2) < int sw)"

definition window_positions :: "nat \<Rightarrow> nat \<Rightarrow> nat \<Rightarrow> nat \<Rightarrow> nat \<Rightarrow> (nat \<times> nat) list" where
  "window_positions sw sh k x y = filter (in_window sw sh k x y) (List.product [0..<k] [0..<k])"

definition kernel_term ::
  "'n arithmetic \<Rightarrow> ImageData \<Rightarrow> 'n list \<Rightarrow> nat \<Rightarrow> nat \<Rightarrow> nat \<Rightarrow> nat \<Rightarrow> nat \<times> nat \<Rightarrow> 'n" where
  "kernel_term A pixels weights k x y c q =
     (case q of (ky, kx) \<Rightarrow>
        js_mul A
          (js_num A (data pixels !
             (4 * (nat (int y + int ky - int (k div 2)) * width pixels +
                   nat (int x + int kx - int (k div 2))) + c)))
          (weights ! (ky * k + kx)))"

definition kernel_sum ::
  "'n arithmetic \<Rightarrow> ImageData \<Rightarrow> 'n list \<Rightarrow> nat \<Rightarrow> nat \<Rightarrow> nat \<Rightarrow> nat \<Rightarrow> 'n" where
  "kernel_sum A pixels weights k x y c =
     fold (\<lambda>q acc. js_add A acc (kernel_term A pixels weights k x y c q))
          (window_positions (width pixels) (height pixels) k x y) (js_num A 0)"

text \<open>The byte at index \<open>j\<close> of the result: the input's alpha, or the clamped sum.\<close>

definition kernel_byte :: "'n arithmetic \<Rightarrow> ImageData \<Rightarrow> 'n list \<Rightarrow> nat \<Rightarrow> nat \<Rightarrow> nat" where
  "kernel_byte A pixels weights k j =
     (if j mod 4 = 3 then data pixels ! j
      else js_byte A (js_clamp A
             (kernel_sum A pixels weights k ((j div 4) mod width pixels) ((j div 4) div width pixels)
                (j mod 4))))"

section \<open>Rounding\<close>

text \<open>
  What is used of rounding to the nearest double: 0 is not moved, the rounding is monotone,
  and a number of magnitude at most 1024 moves by at most \<open>1 / 10 ^ 9\<close> (a double has 53
  significant bits, which makes it at most \<open>1 / 2 ^ 44\<close>).
\<close>

definition rounds_like_double :: "(real \<Rightarrow> real) \<Rightarrow> bool" where
  "rounds_like_double rnd \<longleftrightarrow>
     rnd 0 = 0 \<and> (\<forall>x y. x \<le> y \<longrightarrow> rnd x \<le> rnd y) \<and>
     (\<forall>x. \<bar>x\<bar> \<le> 1024 \<longrightarrow> \<bar>rnd x - x\<bar> \<le> 1 / 10 ^ 9)"

text \<open>A rounding of that kind: to the nearest multiple of \<open>1 / 2 ^ 40\<close>.\<close>

definition round_to_grid :: "real \<Rightarrow> real" where
  "round_to_grid x = real_of_int (round (x * 2 ^ 40)) / 2 ^ 40"

text \<open>
  The share of the chroma \<open>D\<close> that the hue \<open>h\<close>, counted in sextants from 0 to 7, takes from
  the value \<open>M\<close> in each channel: without rounding the channels of a colour are
  \<open>M - D * ramp h\<close>.
\<close>

definition ramp_r :: "real \<Rightarrow> real" where
  "ramp_r h = max 0 (min 1 (min (h - 1) (5 - h)))"

definition ramp_g :: "real \<Rightarrow> real" where
  "ramp_g h = max 0 (min 1 (max (1 - h) (min (h - 3) (7 - h))))"

definition ramp_b :: "real \<Rightarrow> real" where
  "ramp_b h = max 0 (min 1 (max (3 - h) (h - 5)))"

definition ramp_rgb :: "real \<Rightarrow> real \<Rightarrow> real \<Rightarrow> real \<times> real \<times> real" where
  "ramp_rgb M D h = (M - D * ramp_r h, M - D * ramp_g h, M - D * ramp_b h)"

text \<open>The rounded \<open>(h, s, v)\<close> is close to the hue \<open>H\<close> in sextants, the value \<open>M\<close> and the
  saturation \<open>S\<close>.\<close>

definition hsv_close :: "(real \<Rightarrow> real) \<Rightarrow> real \<times> real \<times> real \<Rightarrow> real \<Rightarrow> real \<Rightarrow> real \<Rightarrow> bool" where
  "hsv_close rnd hsv H M S \<longleftrightarrow>
     (case hsv of (h, s, v) \<Rightarrow>
        0 \<le> S \<and> S \<le> 1 \<and> 0 \<le> M \<and> M \<le> 1 \<and> 0 \<le> H \<and> H \<le> 6 \<and>
        \<bar>v - M\<bar> \<le> 1 / 10 ^ 9 \<and> \<bar>s - S\<bar> \<le> 2 / 10 ^ 6 \<and>
        0 \<le> rnd (h * 6) \<and> \<bar>rnd (h * 6) - H\<bar> \<le> 2 / 10 ^ 6)"

section \<open>Stores, loops and their invariants\<close>

lemma ToUint8Clamp_le: "ToUint8Clamp x \<le> 255"
  unfolding ToUint8Clamp_def Let_def
  by (auto simp: nat_le_iff floor_le_iff intro: order_less_imp_le) 

lemma ToUint8Clamp_of_nat: "n \<le> 255 \<Longrightarrow> ToUint8Clamp (real n) = n"
  unfolding ToUint8Clamp_def Let_def by auto

lemma stored_le: "stored v \<le> 255"
  by (simp add: stored_def ToUint8Clamp_le split: option.split)

lemma length_wr: "length (wr d i v) = length d"
  by (simp add: wr_def)

lemma nth_wr: "j < length d \<Longrightarrow> wr d i v ! j = (if j = i then stored v else d ! j)"
  by (simp add: wr_def nth_list_update)

lemma list_all_wr: "list_all (\<lambda>c. c \<le> 255) d \<Longrightarrow> list_all (\<lambda>c. c \<le> 255) (wr d i v)"
  by (auto simp: list_all_iff wr_def stored_le dest!: set_update_subset_insert [THEN subsetD])

lemma fold_invariant: "P s \<Longrightarrow> (\<And>x s. x \<in> set xs \<Longrightarrow> P s \<Longrightarrow> P (f x s)) \<Longrightarrow> P (fold f xs s)"
  by (induction xs arbitrary: s) auto

lemma fold_fixed: "(\<And>x. x \<in> set xs \<Longrightarrow> f x s = s) \<Longrightarrow> fold f xs s = s"
  by (induction xs) auto

lemma same_alpha_iff:
  "same_alpha d d' \<longleftrightarrow> length d' = length d \<and> (\<forall>j<length d. j mod 4 = 3 \<longrightarrow> d' ! j = d ! j)"
  by (auto simp: same_alpha_def alpha_indices_def list_all_iff)

lemma same_alpha_refl: "same_alpha d d"
  by (simp add: same_alpha_iff)

lemma same_alpha_trans: "same_alpha a b \<Longrightarrow> same_alpha b c \<Longrightarrow> same_alpha a c"
  by (simp add: same_alpha_iff)

lemma same_alpha_wr: "same_alpha d s \<Longrightarrow> i mod 4 \<noteq> 3 \<Longrightarrow> same_alpha d (wr s i v)"
  by (auto simp: same_alpha_iff length_wr nth_wr)

lemma mod4_facts:
  "(4 * p) mod 4 \<noteq> (3::nat)" "(4 * p + 1) mod 4 \<noteq> (3::nat)" "(4 * p + 2) mod 4 \<noteq> (3::nat)"
  "(q * 4) mod 4 \<noteq> (3::nat)" "(q * 4 + 1) mod 4 \<noteq> (3::nat)" "(q * 4 + 2) mod 4 \<noteq> (3::nat)"
  "Suc (4 * p) mod 4 \<noteq> 3" "Suc (Suc (4 * p)) mod 4 \<noteq> 3"
  "Suc (q * 4) mod 4 \<noteq> 3" "Suc (Suc (q * 4)) mod 4 \<noteq> 3"
  by presburger+

lemma same_alpha_wr3:
  "i mod 4 = 0 \<Longrightarrow> a < 3 \<Longrightarrow> b < 3 \<Longrightarrow> c < 3 \<Longrightarrow>
   same_alpha d (wr (wr (wr d (i + a) u) (i + b) v) (i + c) w)"
  by (auto simp: same_alpha_iff length_wr nth_wr)

lemma three_writes_alpha:
  "i mod 4 = 0 \<Longrightarrow> same_alpha d (wr (wr (wr d i u) (i + 1) v) (i + 2) w)"
  using same_alpha_wr3 [of i 0 1 2 d u v w] by simp

lemma three_writes_range:
  "list_all (\<lambda>c. c \<le> 255) d \<Longrightarrow> list_all (\<lambda>c. c \<le> 255) (wr (wr (wr d i u) j v) k w)"
  by (intro list_all_wr)

lemma rgb_onlyI:
  "(\<And>d. same_alpha d (f d)) \<Longrightarrow> (\<And>d. list_all (\<lambda>c. c \<le> 255) d \<Longrightarrow> list_all (\<lambda>c. c \<le> 255) (f d)) \<Longrightarrow> rgb_only f"
  by (simp add: rgb_only_def)

lemma fold_rgb_only:
  assumes "\<And>x. x \<in> set xs \<Longrightarrow> rgb_only (f x)"
  shows "rgb_only (fold f xs)"
proof (rule rgb_onlyI)
  fix d
  show "same_alpha d (fold f xs d)"
    by (rule fold_invariant [where P = "same_alpha d"])
       (use assms in \<open>auto simp: rgb_only_def intro: same_alpha_refl same_alpha_trans\<close>)
  show "list_all (\<lambda>c. c \<le> 255) (fold f xs d)" if "list_all (\<lambda>c. c \<le> 255) d"
    by (rule fold_invariant [where P = "list_all (\<lambda>c. c \<le> 255)"])
       (use assms that in \<open>auto simp: rgb_only_def\<close>)
qed


lemma rgb_only_grayscale_step: "rgb_only (grayscale_step (4 * p))"
  by (rule rgb_onlyI)
     (auto simp: grayscale_step_def Let_def mod4_facts intro!: same_alpha_wr same_alpha_refl list_all_wr)

lemma rgb_only_sepia_step: "rgb_only (sepia_step adj (4 * p))"
  by (rule rgb_onlyI)
     (auto simp: sepia_step_def Let_def mod4_facts intro!: same_alpha_wr same_alpha_refl list_all_wr)

lemma rgb_only_invert_step: "rgb_only (invert_step (4 * p))"
  by (rule rgb_onlyI)
     (auto simp: invert_step_def Let_def mod4_facts intro!: same_alpha_wr same_alpha_refl list_all_wr)

lemma rgb_only_brightness_step: "rgb_only (brightness_step a (4 * p))"
  by (rule rgb_onlyI)
     (auto simp: brightness_step_def Let_def mod4_facts intro!: same_alpha_wr same_alpha_refl list_all_wr)

lemma rgb_only_hueSaturation_step: "rgb_only (hueSaturation_step a (4 * p))"
  by (rule rgb_onlyI)
     (auto simp: hueSaturation_step_def Let_def mod4_facts intro!: same_alpha_wr same_alpha_refl list_all_wr
        split: option.split prod.split)

lemma rgb_only_saturation_step: "rgb_only (saturation_step a (4 * p))"
  by (rule rgb_onlyI)
     (auto simp: saturation_step_def Let_def mod4_facts intro!: same_alpha_wr same_alpha_refl list_all_wr)

lemma rgb_only_contrast_step: "rgb_only (contrast_step a (4 * p))"
  by (rule rgb_onlyI)
     (auto simp: contrast_step_def Let_def mod4_facts intro!: same_alpha_wr same_alpha_refl list_all_wr)

lemma rgb_only_colorFilter_step: "rgb_only (colorFilter_step a (4 * p))"
  by (rule rgb_onlyI)
     (auto simp: colorFilter_step_def Let_def mod4_facts intro!: same_alpha_wr same_alpha_refl list_all_wr
        split: prod.split)

lemma rgb_only_rgbAdjust_step: "rgb_only (rgbAdjust_step a (4 * p))"
  by (rule rgb_onlyI)
     (auto simp: rgbAdjust_step_def Let_def mod4_facts intro!: same_alpha_wr same_alpha_refl list_all_wr
        split: prod.split)

lemma rgb_only_noise_step: "rgb_only (noise_step rnd a (4 * p))"
  by (rule rgb_onlyI)
     (auto simp: noise_step_def Let_def mod4_facts intro!: same_alpha_wr same_alpha_refl list_all_wr)

lemma rgb_only_blend_step: "rgb_only (blend_step a orig (4 * p))"
  by (rule rgb_onlyI)
     (auto simp: blend_step_def Let_def mod4_facts intro!: same_alpha_wr same_alpha_refl list_all_wr)

lemma rgb_only_vignette_step: "rgb_only (vignette_step w cx cy m a y x)"
  unfolding vignette_step_def Let_def
  by (rule rgb_onlyI) (simp_all only: three_writes_range, rule three_writes_alpha, simp)

lemma rgb_only_forEachPixel:
  assumes "\<And>p. rgb_only (body (4 * p))"
  shows "same_alpha d (forEachPixel body d)"
    and "list_all (\<lambda>c. c \<le> 255) d \<Longrightarrow> list_all (\<lambda>c. c \<le> 255) (forEachPixel body d)"
proof -
  have "rgb_only (fold body (map (\<lambda>p. 4 * p) [0..<(length d + 3) div 4]))"
    by (rule fold_rgb_only) (use assms in auto)
  then show "same_alpha d (forEachPixel body d)"
    and "list_all (\<lambda>c. c \<le> 255) d \<Longrightarrow> list_all (\<lambda>c. c \<le> 255) (forEachPixel body d)"
    by (simp_all add: rgb_only_def forEachPixel_def)
qed

lemma rgb_only_vignette_nest:
  "rgb_only (fold (\<lambda>y d. fold (\<lambda>x d. vignette_step w cx cy m a y x d) [0..<w] d) [0..<h])"
  by (intro fold_rgb_only rgb_only_vignette_step)

section \<open>The pixel loop, pixel by pixel\<close>

lemma forEachPixel_nth:
  assumes len: "length d = 4 * n"
    and step: "\<And>p s. p < n \<Longrightarrow> length s = length d \<Longrightarrow> (\<forall>j<length d. p \<le> j div 4 \<longrightarrow> s ! j = d ! j) \<Longrightarrow>
        length (body (4 * p) s) = length d \<and>
        (\<forall>j<length d. body (4 * p) s ! j = (if j div 4 = p then G j else s ! j))"
  shows "length (forEachPixel body d) = length d \<and> (\<forall>j<length d. forEachPixel body d ! j = G j)"
proof -
  have run: "k \<le> n \<Longrightarrow>
      length (fold body (map (\<lambda>p. 4 * p) [0..<k]) d) = length d \<and>
      (\<forall>j<length d. fold body (map (\<lambda>p. 4 * p) [0..<k]) d ! j = (if j div 4 < k then G j else d ! j))" for k
  proof (induction k)
    case 0
    then show ?case by simp
  next
    case (Suc k)
    let ?s = "fold body (map (\<lambda>p. 4 * p) [0..<k]) d"
    from Suc have s: "length ?s = length d"
      "\<forall>j<length d. ?s ! j = (if j div 4 < k then G j else d ! j)"
      by simp_all
    have "k < n" using Suc.prems by simp
    moreover have "\<forall>j<length d. k \<le> j div 4 \<longrightarrow> ?s ! j = d ! j"
      using s(2) by auto
    ultimately have b: "length (body (4 * k) ?s) = length d"
      "\<forall>j<length d. body (4 * k) ?s ! j = (if j div 4 = k then G j else ?s ! j)"
      using step [of k ?s] s(1) by simp_all
    show ?case
      using b s(2) by (auto simp: less_Suc_eq)
  qed
  have n: "(length d + 3) div 4 = n" using len by simp
  have "j div 4 < n" if "j < length d" for j using that len by simp
  with run [of n] show ?thesis
    by (simp add: forEachPixel_def n)
qed

lemma rd_Some: "i < length d \<Longrightarrow> rd d i = Some (real (d ! i))"
  by (simp add: rd_def)

lemma wr_same: "i < length d \<Longrightarrow> d ! i \<le> 255 \<Longrightarrow> wr d i (Some (real (d ! i))) = d"
  by (simp add: wr_def stored_def ToUint8Clamp_of_nat)

text \<open>The bytes of one whole pixel of a well-formed buffer.\<close>

lemma pixel_in_buffer:
  assumes "length d = 4 * n" "p < n" "list_all (\<lambda>c. c \<le> 255) d"
  shows "4 * p < length d" "4 * p + 1 < length d" "4 * p + 2 < length d" "4 * p + 3 < length d"
    "d ! (4 * p) \<le> 255" "d ! (4 * p + 1) \<le> 255" "d ! (4 * p + 2) \<le> 255" "d ! (4 * p + 3) \<le> 255"
  using assms by (auto simp: list_all_length)

lemma wf_image_pixels:
  assumes "wf_image pixels"
  shows "length (data pixels) = 4 * (width pixels * height pixels)"
    and "list_all (\<lambda>c. c \<le> 255) (data pixels)"
  using assms by (simp_all add: wf_image_def)

lemma forEachPixel_fixed:
  assumes len: "length d = 4 * n"
    and "\<And>p. p < n \<Longrightarrow> body (4 * p) d = d"
  shows "forEachPixel body d = d"
  unfolding forEachPixel_def
proof (rule fold_fixed)
  fix x assume "x \<in> set (map (\<lambda>p. 4 * p) [0..<(length d + 3) div 4])"
  then obtain p where "x = 4 * p" "p < n" using len by auto
  then show "body x d = d" using assms(2) by simp
qed

lemma brightness_step_0:
  assumes "length d = 4 * n" "p < n" "list_all (\<lambda>c. c \<le> 255) d"
  shows "brightness_step 0 (4 * p) d = d"
  using pixel_in_buffer [OF assms]
  by (simp add: brightness_step_def Let_def rd_Some wr_same)

lemma contrast_factor_0: "contrast_factor 0 = Some 1"
  by (simp add: contrast_factor_def contrast_numerator_def contrast_denominator_def)

lemma contrast_step_0:
  assumes "length d = 4 * n" "p < n" "list_all (\<lambda>c. c \<le> 255) d"
  shows "contrast_step (Some 1) (4 * p) d = d"
  using pixel_in_buffer [OF assms]
  by (simp add: contrast_step_def contrast_channel_def Let_def rd_Some wr_same)

lemma saturation_step_0:
  assumes "length d = 4 * n" "p < n" "list_all (\<lambda>c. c \<le> 255) d"
  shows "saturation_step 0 (4 * p) d = d"
  using pixel_in_buffer [OF assms]
  by (simp add: saturation_step_def lift2_def lift3_def Let_def rd_Some wr_same)

lemma sepia_step_0:
  assumes "length d = 4 * n" "p < n" "list_all (\<lambda>c. c \<le> 255) d"
  shows "sepia_step 0 (4 * p) d = d"
  using pixel_in_buffer [OF assms]
  by (simp add: sepia_step_def lift3_def Let_def rd_Some wr_same)

lemma colorFilter_step_0:
  assumes "length d = 4 * n" "p < n" "list_all (\<lambda>c. c \<le> 255) d"
  shows "colorFilter_step (cr, cg, cb, 0) (4 * p) d = d"
  using pixel_in_buffer [OF assms]
  by (simp add: colorFilter_step_def Let_def rd_Some wr_same)

lemma sepia_white_values:
  "ToUint8Clamp (255 * (1 - (0.607 * 1)) + 255 * 0.769 * 1 + 255 * 0.189 * 1) = 255"
  "ToUint8Clamp (255 * 0.349 * 1 + 255 * (1 - (0.314 * 1)) + 255 * 0.168 * 1) = 255"
  "ToUint8Clamp (255 * 0.272 * 1 + 255 * 0.534 * 1 + 255 * (1 - (0.869 * 1))) = 239"
  by (simp_all add: ToUint8Clamp_def Let_def)

lemma sepia_step_white:
  assumes "length s = 4 * n" "p < n"
    "s ! (4 * p) = 255" "s ! (4 * p + 1) = 255" "s ! (4 * p + 2) = 255"
  shows "sepia_step 1 (4 * p) s = s[4 * p := 255, 4 * p + 1 := 255, 4 * p + 2 := 239]"
proof -
  have "4 * p + 2 < length s" using assms by simp
  then show ?thesis
    using assms(3-5) sepia_white_values
    by (simp add: sepia_step_def Let_def rd_def lift3_def wr_def stored_def)
qed

lemma nth_pixel_update:
  assumes "j < length s"
  shows "s[4 * p := a, 4 * p + 1 := b, 4 * p + 2 := c] ! j =
     (if j div 4 = p
      then (if j mod 4 = 0 then a else if j mod 4 = 1 then b else if j mod 4 = 2 then c else s ! j)
      else s ! j)"
proof (cases "j div 4 = p")
  case False
  then have "j \<noteq> 4 * p" "j \<noteq> 4 * p + 1" "j \<noteq> 4 * p + 2" by auto
  with False show ?thesis by simp
next
  case True
  have "j mod 4 = 0 \<or> j mod 4 = 1 \<or> j mod 4 = 2 \<or> j mod 4 = 3" by presburger
  moreover have j: "j = 4 * p + j mod 4" using True by auto
  ultimately consider "j = 4 * p" "j mod 4 = 0" | "j = 4 * p + 1" "j mod 4 = 1"
    | "j = 4 * p + 2" "j mod 4 = 2" | "j = 4 * p + 3" "j mod 4 = 3"
    by auto
  then show ?thesis
  proof cases
    case 1 with assms True show ?thesis by simp
  next
    case 2 with assms True show ?thesis by simp
  next
    case 3 with assms True show ?thesis by simp
  next
    case 4 with assms True show ?thesis by simp
  qed
qed

lemma sepia_white_data:
  assumes len: "length d = 4 * n" and white: "\<forall>j<length d. d ! j = 255"
  shows "length (forEachPixel (sepia_step 1) d) = length d \<and>
     (\<forall>j<length d. forEachPixel (sepia_step 1) d ! j = (if j mod 4 = 2 then 239 else 255))"
proof (rule forEachPixel_nth [OF len])
  fix p s
  assume p: "p < n" and ls: "length s = length d"
    and same: "\<forall>j<length d. p \<le> j div 4 \<longrightarrow> s ! j = d ! j"
  have in_range: "4 * p < length d" "4 * p + 1 < length d" "4 * p + 2 < length d"
    using len p by simp_all
  have "s ! (4 * p) = 255" "s ! (4 * p + 1) = 255" "s ! (4 * p + 2) = 255"
    using same white in_range by simp_all
  then have step: "sepia_step 1 (4 * p) s = s[4 * p := 255, 4 * p + 1 := 255, 4 * p + 2 := 239]"
    using sepia_step_white [of s n p] ls len p by simp
  have "s[4 * p := 255, 4 * p + 1 := 255, 4 * p + 2 := 239] ! j =
      (if j div 4 = p then if j mod 4 = 2 then 239 else 255 else s ! j)" if "j < length d" for j
  proof -
    have "s ! j = 255" if "j div 4 = p" using same white that \<open>j < length d\<close> by simp
    moreover have "s[4 * p := 255, 4 * p + 1 := 255, 4 * p + 2 := 239] ! j =
      (if j div 4 = p
       then (if j mod 4 = 0 then 255 else if j mod 4 = 1 then 255 else if j mod 4 = 2 then 239 else s ! j)
       else s ! j)"
      by (rule nth_pixel_update) (use that ls in simp)
    ultimately show ?thesis by auto
  qed
  then show "length (sepia_step 1 (4 * p) s) = length d \<and>
        (\<forall>j<length d. sepia_step 1 (4 * p) s ! j =
           (if j div 4 = p then if j mod 4 = 2 then 239 else 255 else s ! j))"
    by (simp add: step ls)
qed

section \<open>The convolution\<close>

lemma side_of_square: "nat (round (sqrt (real (k * k)))) = k"
  by (simp add: real_sqrt_mult_self)

lemma cell_index: "x < (w::nat) \<Longrightarrow> y < h \<Longrightarrow> y * w + x < w * h"
proof -
  assume "x < w" "y < h"
  then have "y * w + x < y * w + w" by simp
  also have "\<dots> = Suc y * w" by simp
  also have "\<dots> \<le> h * w" using \<open>y < h\<close> by (intro mult_le_mono1) simp
  finally show ?thesis by (simp add: mult.commute)
qed

subsection \<open>The loops over the pixels, for any weights\<close>

lemma nth_pixel_update4:
  assumes "j < length s"
  shows "(s[4 * p := a, 4 * p + 1 := b, 4 * p + 2 := c])[4 * p + 3 := e] ! j =
     (if j div 4 = p
      then (if j mod 4 = 0 then a else if j mod 4 = 1 then b else if j mod 4 = 2 then c else e)
      else s ! j)"
proof (cases "j = 4 * p + 3")
  case True
  then have "j mod 4 = 3" "j div 4 = p" by presburger+
  with True assms show ?thesis by simp
next
  case False
  have "j mod 4 = 3 \<Longrightarrow> j div 4 = p \<Longrightarrow> j = 4 * p + 3" by presburger
  with False have "j div 4 = p \<Longrightarrow> j mod 4 \<noteq> 3" by blast
  moreover have "j mod 4 = 0 \<or> j mod 4 = 1 \<or> j mod 4 = 2 \<or> j mod 4 = 3" by presburger
  moreover have "(s[4 * p := a, 4 * p + 1 := b, 4 * p + 2 := c])[4 * p + 3 := e] ! j =
      s[4 * p := a, 4 * p + 1 := b, 4 * p + 2 := c] ! j"
    using False by simp
  ultimately show ?thesis
    using nth_pixel_update [OF assms, of p a b c] by auto
qed

lemma convolute_pixel_writes:
  assumes wf: "wf_image pixels"
    and side: "side = nat (round (sqrt (real (length weights))))"
    and x: "x < width pixels" and y: "y < height pixels"
    and ls: "length s = length (data pixels)"
  shows "length (convolute_pixel (data pixels) (width pixels) (height pixels) weights side (side div 2) y x s)
           = length (data pixels) \<and>
         (\<forall>j<length (data pixels).
            convolute_pixel (data pixels) (width pixels) (height pixels) weights side (side div 2) y x s ! j =
            (if j div 4 \<in> {y * width pixels + x} then convolute_out pixels weights j else s ! j))"
proof -
  define p where "p = y * width pixels + x"
  obtain r g b where acc:
    "convolute_window (data pixels) (width pixels) (height pixels) weights side (side div 2) y x = (r, g, b)"
    by (cases "convolute_window (data pixels) (width pixels) (height pixels) weights side (side div 2) y x")
  define v0 where "v0 = stored (map_option (\<lambda>r. max 0 (min 255 r)) r)"
  define v1 where "v1 = stored (map_option (\<lambda>g. max 0 (min 255 g)) g)"
  define v2 where "v2 = stored (map_option (\<lambda>b. max 0 (min 255 b)) b)"
  have len: "length (data pixels) = 4 * (width pixels * height pixels)"
    and range: "list_all (\<lambda>c. c \<le> 255) (data pixels)"
    using wf by (simp_all add: wf_image_def)
  have "p < width pixels * height pixels" unfolding p_def using x y by (rule cell_index)
  then have a: "4 * p + 3 < length (data pixels)" using len by simp
  then have alpha: "data pixels ! (4 * p + 3) \<le> 255"
    using range by (simp add: list_all_length)
  have xy: "p mod width pixels = x" "p div width pixels = y" using x by (simp_all add: p_def)
  have off: "(y * width pixels + x) * 4 = 4 * p" by (simp add: p_def)
  have "convolute_pixel (data pixels) (width pixels) (height pixels) weights side (side div 2) y x s =
      wr (wr (wr (wr s (4 * p) (map_option (\<lambda>r. max 0 (min 255 r)) r))
                 (4 * p + 1) (map_option (\<lambda>g. max 0 (min 255 g)) g))
             (4 * p + 2) (map_option (\<lambda>b. max 0 (min 255 b)) b))
         (4 * p + 3) (rd (data pixels) (4 * p + 3))"
    unfolding convolute_pixel_def Let_def acc off by simp
  also have "\<dots> = (s[4 * p := v0, 4 * p + 1 := v1, 4 * p + 2 := v2])[4 * p + 3 := data pixels ! (4 * p + 3)]"
    using a alpha unfolding wr_def rd_def v0_def v1_def v2_def
    by (simp add: stored_def ToUint8Clamp_of_nat)
  finally have writes:
    "convolute_pixel (data pixels) (width pixels) (height pixels) weights side (side div 2) y x s =
     (s[4 * p := v0, 4 * p + 1 := v1, 4 * p + 2 := v2])[4 * p + 3 := data pixels ! (4 * p + 3)]" .
  have "convolute_pixel (data pixels) (width pixels) (height pixels) weights side (side div 2) y x s ! j =
       (if j div 4 = p then convolute_out pixels weights j else s ! j)"
    if j: "j < length (data pixels)" for j
  proof -
    have "j mod 4 = 0 \<or> j mod 4 = 1 \<or> j mod 4 = 2 \<or> j mod 4 = 3" by presburger
    moreover have "j mod 4 = 3 \<Longrightarrow> j div 4 = p \<Longrightarrow> j = 4 * p + 3" by presburger
    ultimately have "(if j mod 4 = 0 then v0 else if j mod 4 = 1 then v1 else if j mod 4 = 2 then v2
           else data pixels ! (4 * p + 3)) = convolute_out pixels weights j"
      if "j div 4 = p"
      using that xy acc by (auto simp: convolute_out_def Let_def side [symmetric] v0_def v1_def v2_def)
    then show ?thesis
      unfolding writes using nth_pixel_update4 [of j s p v0 v1 v2 "data pixels ! (4 * p + 3)"] j ls
      by simp
  qed
  then show ?thesis
    by (simp add: writes ls p_def)
qed

lemma fold_writes:
  assumes "\<And>q s. q \<in> set qs \<Longrightarrow> length s = L \<Longrightarrow>
      length (f q s) = L \<and> (\<forall>j<L. f q s ! j = (if j div 4 \<in> S q then G j else s ! j))"
    and "length s = L"
  shows "length (fold f qs s) = L \<and>
     (\<forall>j<L. fold f qs s ! j = (if j div 4 \<in> (\<Union>q\<in>set qs. S q) then G j else s ! j))"
  using assms
proof (induction qs arbitrary: s)
  case Nil
  then show ?case by simp
next
  case (Cons q qs)
  have q: "length (f q s) = L" "\<forall>j<L. f q s ! j = (if j div 4 \<in> S q then G j else s ! j)"
    using Cons.prems(1) [of q s] Cons.prems(2) by simp_all
  have "length (fold f qs (f q s)) = L \<and>
     (\<forall>j<L. fold f qs (f q s) ! j = (if j div 4 \<in> (\<Union>q\<in>set qs. S q) then G j else f q s ! j))"
    by (rule Cons.IH) (use Cons.prems(1) q(1) in auto)
  with q(2) show ?case by auto
qed

lemma convolute_nest:
  assumes wf: "wf_image pixels"
    and side: "side = nat (round (sqrt (real (length weights))))"
    and ls: "length s = length (data pixels)"
  shows "fold (\<lambda>y output. fold (\<lambda>x output.
            convolute_pixel (data pixels) (width pixels) (height pixels) weights side (side div 2) y x output)
            [0..<width pixels] output) [0..<height pixels] s =
         map (convolute_out pixels weights) [0..<length (data pixels)]"
proof -
  let ?L = "length (data pixels)"
  let ?px = "\<lambda>y x. convolute_pixel (data pixels) (width pixels) (height pixels) weights side (side div 2) y x"
  let ?G = "convolute_out pixels weights"
  have len: "?L = 4 * (width pixels * height pixels)" using wf by (simp add: wf_image_def)
  have row: "length (fold (?px y) [0..<width pixels] t) = ?L \<and>
      (\<forall>j<?L. fold (?px y) [0..<width pixels] t ! j =
         (if j div 4 \<in> (\<Union>x\<in>set [0..<width pixels]. {y * width pixels + x}) then ?G j else t ! j))"
    if "y \<in> set [0..<height pixels]" "length t = ?L" for y t
    by (rule fold_writes) (use that convolute_pixel_writes [OF wf side] in auto)
  have all: "length (fold (\<lambda>y. fold (?px y) [0..<width pixels]) [0..<height pixels] s) = ?L \<and>
      (\<forall>j<?L. fold (\<lambda>y. fold (?px y) [0..<width pixels]) [0..<height pixels] s ! j =
         (if j div 4 \<in> (\<Union>y\<in>set [0..<height pixels]. \<Union>x\<in>set [0..<width pixels]. {y * width pixels + x})
          then ?G j else s ! j))"
    by (rule fold_writes) (use row ls in auto)
  have cover: "j div 4 \<in> (\<Union>y\<in>set [0..<height pixels]. \<Union>x\<in>set [0..<width pixels]. {y * width pixels + x})"
    if "j < ?L" for j
  proof -
    have p: "j div 4 < width pixels * height pixels" using that len by simp
    then have "0 < width pixels" by (cases "width pixels") simp_all
    then have "(j div 4) mod width pixels < width pixels" by simp
    moreover have "(j div 4) div width pixels < height pixels"
      using p by (simp add: less_mult_imp_div_less mult.commute)
    moreover have "j div 4 = (j div 4) div width pixels * width pixels + (j div 4) mod width pixels"
      by simp
    ultimately show ?thesis by (simp only: set_upt UN_iff) (metis atLeastLessThan_iff singletonI zero_le)
  qed
  show ?thesis
    by (rule nth_equalityI) (use all cover in simp_all)
qed

lemma convolute_out_le:
  assumes "list_all (\<lambda>c. c \<le> 255) (data pixels)" "j < length (data pixels)"
  shows "convolute_out pixels weights j \<le> 255"
  using assms by (simp add: convolute_out_def Let_def stored_le list_all_length split: prod.split)

lemma copy_back:
  assumes "length out = length d" "list_all (\<lambda>c. c \<le> 255) out"
  shows "fold (\<lambda>i d. wr d i (rd out i)) [0..<length d] d = out"
proof -
  have "k \<le> length d \<Longrightarrow>
      length (fold (\<lambda>i d. wr d i (rd out i)) [0..<k] d) = length d \<and>
      (\<forall>j<length d. fold (\<lambda>i d. wr d i (rd out i)) [0..<k] d ! j = (if j < k then out ! j else d ! j))"
    for k
  proof (induction k)
    case 0
    then show ?case by simp
  next
    case (Suc k)
    then have "k < length out" "out ! k \<le> 255"
      using assms by (simp_all add: list_all_length)
    then have "stored (rd out k) = out ! k"
      by (simp add: rd_def stored_def ToUint8Clamp_of_nat)
    with Suc show ?case
      by (auto simp: wr_def nth_list_update less_Suc_eq)
  qed
  from this [of "length d"] show ?thesis
    using assms(1) by (intro nth_equalityI) simp_all
qed

lemma convolute_data:
  assumes wf: "wf_image pixels"
  shows "convolute pixels weights =
     pixels\<lparr>data := map (convolute_out pixels weights) [0..<length (data pixels)]\<rparr>"
proof -
  have range: "list_all (\<lambda>c. c \<le> 255) (data pixels)" using wf by (simp add: wf_image_def)
  have out: "list_all (\<lambda>c. c \<le> 255) (map (convolute_out pixels weights) [0..<length (data pixels)])"
    using convolute_out_le [OF range] by (simp add: list_all_iff)
  show ?thesis
    unfolding convolute_def Let_def
    by (simp add: convolute_nest [OF wf refl] copy_back out)
qed

section \<open>The convolution over an arithmetic\<close>

text \<open>With the arithmetic that does not round, it is \<open>convolute\<close>.\<close>

lemma lift3_sum: "lift3 (\<lambda>r c wt. r + c * wt) r c wt = lift2 (+) r (lift2 (*) c wt)"
  by (simp add: lift3_def lift2_def split: option.split)

lemma convolute_in_exact: "convolute_in exact_arithmetic pixels (map Some weights) = convolute pixels weights"
proof -
  have ops: "js_add exact_arithmetic = lift2 (+)" "js_mul exact_arithmetic = lift2 (*)"
    "js_clamp exact_arithmetic = map_option (\<lambda>v. max 0 (min 255 v))"
    "js_num exact_arithmetic 0 = Some 0" "js_byte exact_arithmetic = stored"
    by (simp_all add: exact_arithmetic_def)
  have rd: "rd_in exact_arithmetic d i = rd d i" for d i
    by (simp add: rd_in_def rd_def exact_arithmetic_def)
  have rdw: "rdw_in exact_arithmetic (map Some weights) k = rdw weights k" for k
    by (simp add: rdw_in_def rdw_def exact_arithmetic_def)
  have wr: "wr_in exact_arithmetic d i v = wr d i v" for d i v
    by (simp add: wr_in_def wr_def exact_arithmetic_def)
  have tap: "convolute_tap_in exact_arithmetic d sw sh (map Some weights) side hs y x cy cx acc =
      convolute_tap d sw sh weights side hs y x cy cx acc" for d sw sh side hs y x cy cx acc
    unfolding convolute_tap_in_def convolute_tap_def rd rdw lift3_sum ops ..
  have win: "convolute_window_in exact_arithmetic d sw sh (map Some weights) side hs y x =
      convolute_window d sw sh weights side hs y x" for d sw sh side hs y x
    unfolding convolute_window_in_def convolute_window_def tap ops ..
  have px: "convolute_pixel_in exact_arithmetic d sw sh (map Some weights) side hs y x out =
      convolute_pixel d sw sh weights side hs y x out" for d sw sh side hs y x out
    unfolding convolute_pixel_in_def convolute_pixel_def win wr rd ops ..
  show ?thesis
    unfolding convolute_in_def convolute_def px wr rd by simp
qed

lemma rounded_arithmetic_exact: "rounded_arithmetic (\<lambda>x. x) = exact_arithmetic"
  by (simp add: rounded_arithmetic_def exact_arithmetic_def)

lemma stores_bytes_exact: "stores_bytes exact_arithmetic"
proof -
  have "stored (Some (real b)) = b" if "b \<le> 255" for b
    using that by (simp add: stored_def ToUint8Clamp_of_nat)
  then show ?thesis
    by (simp add: stores_bytes_def exact_arithmetic_def stored_le)
qed

lemma stores_bytes_rounded: "stores_bytes (rounded_arithmetic rnd)"
proof -
  have "stored (Some (real b)) = b" if "b \<le> 255" for b
    using that by (simp add: stored_def ToUint8Clamp_of_nat)
  then show ?thesis
    by (simp add: stores_bytes_def rounded_arithmetic_def stored_le)
qed

subsection \<open>The window of one pixel\<close>

lemma fold_product:
  "fold (\<lambda>a s. fold (\<lambda>b s. f a b s) ys s) xs s = fold (\<lambda>(a, b). f a b) (List.product xs ys) s"
  by (induction xs arbitrary: s) (simp_all add: fold_map comp_def)

lemma fold_triple:
  "fold (\<lambda>q (r, g, b). if P q then (f0 q r, f1 q g, f2 q b) else (r, g, b)) qs (r, g, b) =
     (fold (\<lambda>q a. if P q then f0 q a else a) qs r,
      fold (\<lambda>q a. if P q then f1 q a else a) qs g,
      fold (\<lambda>q a. if P q then f2 q a else a) qs b)"
  by (induction qs arbitrary: r g b) simp_all

lemma fold_filter: "fold (\<lambda>q a. if P q then f q a else a) qs a = fold f (filter P qs) a"
  by (induction qs arbitrary: a) simp_all

lemma convolute_tap_in_term:
  assumes len: "length (data pixels) = 4 * (width pixels * height pixels)"
    and wlen: "length weights = side * side"
    and cy: "cy < side" and cx: "cx < side"
  shows "convolute_tap_in A (data pixels) (width pixels) (height pixels) weights side (side div 2) y x cy cx
           (r, g, b) =
         (if in_window (width pixels) (height pixels) side x y (cy, cx)
          then (js_add A r (kernel_term A pixels weights side x y 0 (cy, cx)),
                js_add A g (kernel_term A pixels weights side x y 1 (cy, cx)),
                js_add A b (kernel_term A pixels weights side x y 2 (cy, cx)))
          else (r, g, b))"
proof -
  let ?scy = "int y + int cy - int (side div 2)" and ?scx = "int x + int cx - int (side div 2)"
  have w: "rdw_in A weights (cy * side + cx) = weights ! (cy * side + cx)"
    using cell_index [OF cx cy] wlen by (simp add: rdw_in_def)
  show ?thesis
  proof (cases "in_window (width pixels) (height pixels) side x y (cy, cx)")
    case False
    then show ?thesis
      by (auto simp: convolute_tap_in_def in_window_def Let_def)
  next
    case True
    then have inb: "?scy \<ge> 0 \<and> ?scy < int (height pixels) \<and> ?scx \<ge> 0 \<and> ?scx < int (width pixels)"
      by (simp add: in_window_def)
    then have "nat ?scx < width pixels" "nat ?scy < height pixels" by auto
    then have "nat ?scy * width pixels + nat ?scx < width pixels * height pixels"
      by (rule cell_index)
    then have "(nat ?scy * width pixels + nat ?scx) * 4 + 2 < length (data pixels)"
      using len by simp
    then have "rd_in A (data pixels) ((nat ?scy * width pixels + nat ?scx) * 4) =
          js_num A (data pixels ! ((nat ?scy * width pixels + nat ?scx) * 4))"
      "rd_in A (data pixels) ((nat ?scy * width pixels + nat ?scx) * 4 + 1) =
          js_num A (data pixels ! ((nat ?scy * width pixels + nat ?scx) * 4 + 1))"
      "rd_in A (data pixels) ((nat ?scy * width pixels + nat ?scx) * 4 + 2) =
          js_num A (data pixels ! ((nat ?scy * width pixels + nat ?scx) * 4 + 2))"
      by (simp_all add: rd_in_def)
    with True inb w show ?thesis
      by (simp add: convolute_tap_in_def kernel_term_def Let_def mult.commute)
  qed
qed

lemma convolute_window_in_sum:
  assumes len: "length (data pixels) = 4 * (width pixels * height pixels)"
    and wlen: "length weights = side * side"
  shows "convolute_window_in A (data pixels) (width pixels) (height pixels) weights side (side div 2) y x =
         (kernel_sum A pixels weights side x y 0,
          kernel_sum A pixels weights side x y 1,
          kernel_sum A pixels weights side x y 2)"
proof -
  let ?tap = "\<lambda>cy cx. convolute_tap_in A (data pixels) (width pixels) (height pixels) weights side
      (side div 2) y x cy cx"
  let ?P = "in_window (width pixels) (height pixels) side x y"
  let ?f = "\<lambda>c q a. js_add A a (kernel_term A pixels weights side x y c q)"
  have "fold (\<lambda>cy acc. fold (\<lambda>cx acc. ?tap cy cx acc) [0..<side] acc) [0..<side]
          (js_num A 0, js_num A 0, js_num A 0) =
        fold (\<lambda>(cy, cx). ?tap cy cx) (List.product [0..<side] [0..<side])
          (js_num A 0, js_num A 0, js_num A 0)"
    by (rule fold_product)
  also have "\<dots> = fold (\<lambda>q (r, g, b). if ?P q then (?f 0 q r, ?f 1 q g, ?f 2 q b) else (r, g, b))
          (List.product [0..<side] [0..<side]) (js_num A 0, js_num A 0, js_num A 0)"
  proof (rule fold_cong [OF refl refl])
    fix q assume "q \<in> set (List.product [0..<side] [0..<side])"
    then obtain cy cx where q: "q = (cy, cx)" "cy < side" "cx < side" by auto
    show "(case q of (cy, cx) \<Rightarrow> ?tap cy cx) =
        (\<lambda>(r, g, b). if ?P q then (?f 0 q r, ?f 1 q g, ?f 2 q b) else (r, g, b))"
      by (rule ext) (auto simp: q convolute_tap_in_term [OF len wlen q(2,3)])
  qed
  also have "\<dots> =
      (fold (\<lambda>q a. if ?P q then ?f 0 q a else a) (List.product [0..<side] [0..<side]) (js_num A 0),
       fold (\<lambda>q a. if ?P q then ?f 1 q a else a) (List.product [0..<side] [0..<side]) (js_num A 0),
       fold (\<lambda>q a. if ?P q then ?f 2 q a else a) (List.product [0..<side] [0..<side]) (js_num A 0))"
    by (rule fold_triple)
  finally show ?thesis
    by (simp add: convolute_window_in_def kernel_sum_def window_positions_def fold_filter)
qed

subsection \<open>The loops over the pixels\<close>

lemma convolute_pixel_in_writes:
  assumes wf: "wf_image pixels" and A: "stores_bytes A"
    and wlen: "length weights = side * side"
    and x: "x < width pixels" and y: "y < height pixels"
    and ls: "length s = length (data pixels)"
  shows "length (convolute_pixel_in A (data pixels) (width pixels) (height pixels) weights side
                   (side div 2) y x s) = length (data pixels) \<and>
         (\<forall>j<length (data pixels).
            convolute_pixel_in A (data pixels) (width pixels) (height pixels) weights side
              (side div 2) y x s ! j =
            (if j div 4 \<in> {y * width pixels + x} then kernel_byte A pixels weights side j else s ! j))"
proof -
  define p where "p = y * width pixels + x"
  define v where "v c = js_byte A (js_clamp A (kernel_sum A pixels weights side x y c))" for c
  have len: "length (data pixels) = 4 * (width pixels * height pixels)"
    and range: "list_all (\<lambda>c. c \<le> 255) (data pixels)"
    using wf by (simp_all add: wf_image_def)
  have "p < width pixels * height pixels" unfolding p_def using x y by (rule cell_index)
  then have a: "4 * p + 3 < length (data pixels)" using len by simp
  then have "data pixels ! (4 * p + 3) \<le> 255"
    using range by (simp add: list_all_length)
  then have alpha: "js_byte A (js_num A (data pixels ! (4 * p + 3))) = data pixels ! (4 * p + 3)"
    using A by (simp add: stores_bytes_def)
  have xy: "p mod width pixels = x" "p div width pixels = y" using x by (simp_all add: p_def)
  have off: "(y * width pixels + x) * 4 = 4 * p" by (simp add: p_def)
  have "convolute_pixel_in A (data pixels) (width pixels) (height pixels) weights side (side div 2) y x s =
      wr_in A (wr_in A (wr_in A (wr_in A s (4 * p) (js_clamp A (kernel_sum A pixels weights side x y 0)))
                 (4 * p + 1) (js_clamp A (kernel_sum A pixels weights side x y 1)))
             (4 * p + 2) (js_clamp A (kernel_sum A pixels weights side x y 2)))
         (4 * p + 3) (rd_in A (data pixels) (4 * p + 3))"
    unfolding convolute_pixel_in_def Let_def convolute_window_in_sum [OF len wlen] off by simp
  also have "\<dots> = (s[4 * p := v 0, 4 * p + 1 := v 1, 4 * p + 2 := v 2])[4 * p + 3 := data pixels ! (4 * p + 3)]"
    using a alpha unfolding wr_in_def rd_in_def v_def by simp
  finally have writes:
    "convolute_pixel_in A (data pixels) (width pixels) (height pixels) weights side (side div 2) y x s =
     (s[4 * p := v 0, 4 * p + 1 := v 1, 4 * p + 2 := v 2])[4 * p + 3 := data pixels ! (4 * p + 3)]" .
  have "convolute_pixel_in A (data pixels) (width pixels) (height pixels) weights side (side div 2) y x s ! j =
       (if j div 4 = p then kernel_byte A pixels weights side j else s ! j)"
    if j: "j < length (data pixels)" for j
  proof -
    have "j mod 4 = 0 \<or> j mod 4 = 1 \<or> j mod 4 = 2 \<or> j mod 4 = 3" by presburger
    moreover have "j mod 4 = 3 \<Longrightarrow> j div 4 = p \<Longrightarrow> j = 4 * p + 3" by presburger
    ultimately have "(if j mod 4 = 0 then v 0 else if j mod 4 = 1 then v 1 else if j mod 4 = 2 then v 2
           else data pixels ! (4 * p + 3)) = kernel_byte A pixels weights side j"
      if "j div 4 = p"
      using that xy by (auto simp: kernel_byte_def v_def)
    then show ?thesis
      unfolding writes using nth_pixel_update4 [of j s p "v 0" "v 1" "v 2" "data pixels ! (4 * p + 3)"] j ls
      by simp
  qed
  then show ?thesis
    by (simp add: writes ls p_def)
qed

lemma convolute_in_nest:
  assumes wf: "wf_image pixels" and A: "stores_bytes A"
    and wlen: "length weights = side * side"
    and ls: "length s = length (data pixels)"
  shows "fold (\<lambda>y output. fold (\<lambda>x output.
            convolute_pixel_in A (data pixels) (width pixels) (height pixels) weights side (side div 2)
              y x output)
            [0..<width pixels] output) [0..<height pixels] s =
         map (kernel_byte A pixels weights side) [0..<length (data pixels)]"
proof -
  let ?L = "length (data pixels)"
  let ?px = "\<lambda>y x. convolute_pixel_in A (data pixels) (width pixels) (height pixels) weights side
      (side div 2) y x"
  let ?G = "kernel_byte A pixels weights side"
  have len: "?L = 4 * (width pixels * height pixels)" using wf by (simp add: wf_image_def)
  have row: "length (fold (?px y) [0..<width pixels] t) = ?L \<and>
      (\<forall>j<?L. fold (?px y) [0..<width pixels] t ! j =
         (if j div 4 \<in> (\<Union>x\<in>set [0..<width pixels]. {y * width pixels + x}) then ?G j else t ! j))"
    if "y \<in> set [0..<height pixels]" "length t = ?L" for y t
    by (rule fold_writes) (use that convolute_pixel_in_writes [OF wf A wlen] in auto)
  have all: "length (fold (\<lambda>y. fold (?px y) [0..<width pixels]) [0..<height pixels] s) = ?L \<and>
      (\<forall>j<?L. fold (\<lambda>y. fold (?px y) [0..<width pixels]) [0..<height pixels] s ! j =
         (if j div 4 \<in> (\<Union>y\<in>set [0..<height pixels]. \<Union>x\<in>set [0..<width pixels]. {y * width pixels + x})
          then ?G j else s ! j))"
    by (rule fold_writes) (use row ls in auto)
  have cover: "j div 4 \<in> (\<Union>y\<in>set [0..<height pixels]. \<Union>x\<in>set [0..<width pixels]. {y * width pixels + x})"
    if "j < ?L" for j
  proof -
    have p: "j div 4 < width pixels * height pixels" using that len by simp
    then have "0 < width pixels" by (cases "width pixels") simp_all
    then have "(j div 4) mod width pixels < width pixels" by simp
    moreover have "(j div 4) div width pixels < height pixels"
      using p by (simp add: less_mult_imp_div_less mult.commute)
    moreover have "j div 4 = (j div 4) div width pixels * width pixels + (j div 4) mod width pixels"
      by simp
    ultimately show ?thesis by (simp only: set_upt UN_iff) (metis atLeastLessThan_iff singletonI zero_le)
  qed
  show ?thesis
    by (rule nth_equalityI) (use all cover in simp_all)
qed

lemma copy_back_in:
  assumes A: "stores_bytes A" and "length out = length d" "list_all (\<lambda>c. c \<le> 255) out"
  shows "fold (\<lambda>i d. wr_in A d i (rd_in A out i)) [0..<length d] d = out"
proof -
  have "k \<le> length d \<Longrightarrow>
      length (fold (\<lambda>i d. wr_in A d i (rd_in A out i)) [0..<k] d) = length d \<and>
      (\<forall>j<length d. fold (\<lambda>i d. wr_in A d i (rd_in A out i)) [0..<k] d ! j =
         (if j < k then out ! j else d ! j))"
    for k
  proof (induction k)
    case 0
    then show ?case by simp
  next
    case (Suc k)
    then have "k < length out" "out ! k \<le> 255"
      using assms by (simp_all add: list_all_length)
    then have "js_byte A (rd_in A out k) = out ! k"
      using A by (simp add: rd_in_def stores_bytes_def)
    with Suc show ?case
      by (auto simp: wr_in_def nth_list_update less_Suc_eq)
  qed
  from this [of "length d"] show ?thesis
    using assms(2) by (intro nth_equalityI) simp_all
qed

lemma convolute_in_data:
  assumes wf: "wf_image pixels" and A: "stores_bytes A" and wlen: "length weights = k * k"
  shows "convolute_in A pixels weights =
     pixels\<lparr>data := map (kernel_byte A pixels weights k) [0..<length (data pixels)]\<rparr>"
proof -
  have side: "nat (round (sqrt (real (length weights)))) = k"
    using wlen side_of_square by simp
  have range: "list_all (\<lambda>c. c \<le> 255) (data pixels)" using wf by (simp add: wf_image_def)
  have "kernel_byte A pixels weights k j \<le> 255" if "j < length (data pixels)" for j
    using that range A by (simp add: kernel_byte_def stores_bytes_def list_all_length)
  then have out: "list_all (\<lambda>c. c \<le> 255) (map (kernel_byte A pixels weights k) [0..<length (data pixels)])"
    by (simp add: list_all_iff)
  show ?thesis
    unfolding convolute_in_def Let_def side
    by (simp add: convolute_in_nest [OF wf A wlen] copy_back_in [OF A] out)
qed

subsection \<open>An example: the pixel on the right of an image of two pixels\<close>

lemma kernel_sum_rounded_example:
  "kernel_sum (rounded_arithmetic round_to_grid) \<lparr>width = 2, height = 1, data = [10, 20, 30, 255, 40, 50, 60, 255]\<rparr>
          [Some 0, Some 0, Some 0, Some (1 / 2), Some (3 / 2), Some 0, Some 0, Some 0, Some 0] 3 1 0 1 = Some 85"
  by (simp add: kernel_sum_def window_positions_def in_window_def kernel_term_def rounded_arithmetic_def
      lift2_def upt_rec round_to_grid_def)

lemma stored_rounded_example:
  "js_byte (rounded_arithmetic round_to_grid) (js_clamp (rounded_arithmetic round_to_grid) (Some 85)) = 85"
  using ToUint8Clamp_of_nat [of 85] by (simp add: rounded_arithmetic_def stored_def)

section \<open>Every operator keeps the size, the alpha bytes and the byte range\<close>

lemma frame_refl: "wf_image pixels \<Longrightarrow> frame pixels pixels"
  by (simp add: frame_def same_alpha_refl)

lemma frame_forEachPixel:
  assumes "\<And>p. rgb_only (body (4 * p))" and "frame pixels q"
  shows "frame pixels (q\<lparr>data := forEachPixel body (data q)\<rparr>)"
proof -
  have a: "same_alpha (data q) (forEachPixel body (data q))"
    and r: "list_all (\<lambda>c. c \<le> 255) (forEachPixel body (data q))"
    using rgb_only_forEachPixel [of body "data q", OF assms(1)] assms(2)
    by (simp_all add: frame_def wf_image_def)
  from a have "length (forEachPixel body (data q)) = length (data q)"
    by (simp add: same_alpha_iff)
  with a r assms(2) show ?thesis
    by (auto simp: frame_def wf_image_def intro: same_alpha_trans)
qed

lemma frame_grayscale: "frame pixels q \<Longrightarrow> frame pixels (grayscale q)"
  unfolding grayscale_def by (intro frame_forEachPixel rgb_only_grayscale_step)

lemma frame_sepia: "frame pixels q \<Longrightarrow> frame pixels (sepia q adj)"
  unfolding sepia_def by (intro frame_forEachPixel rgb_only_sepia_step)

lemma frame_invert: "frame pixels q \<Longrightarrow> frame pixels (invert q)"
  unfolding invert_def by (intro frame_forEachPixel rgb_only_invert_step)

lemma frame_brightness: "frame pixels q \<Longrightarrow> frame pixels (brightness q adj)"
  unfolding brightness_def Let_def by (intro frame_forEachPixel rgb_only_brightness_step)

lemma frame_hueSaturation: "frame pixels q \<Longrightarrow> frame pixels (hueSaturation q adj)"
  unfolding hueSaturation_def by (intro frame_forEachPixel rgb_only_hueSaturation_step)

lemma frame_saturation: "frame pixels q \<Longrightarrow> frame pixels (saturation q adj)"
  unfolding saturation_def Let_def by (intro frame_forEachPixel rgb_only_saturation_step)

lemma frame_contrast: "frame pixels q \<Longrightarrow> frame pixels (contrast q adj)"
  unfolding contrast_def by (intro frame_forEachPixel rgb_only_contrast_step)

lemma frame_colorFilter: "frame pixels q \<Longrightarrow> frame pixels (colorFilter q rgbColor)"
  unfolding colorFilter_def by (intro frame_forEachPixel rgb_only_colorFilter_step)

lemma frame_rgbAdjust: "frame pixels q \<Longrightarrow> frame pixels (rgbAdjust q rgbAdj)"
  unfolding rgbAdjust_def by (intro frame_forEachPixel rgb_only_rgbAdjust_step)

lemma frame_noise: "frame pixels q \<Longrightarrow> frame pixels (noise random q amount)"
  unfolding noise_def by (intro frame_forEachPixel rgb_only_noise_step)

lemma frame_blend: "frame pixels q \<Longrightarrow> frame pixels (blend originalData q strength)"
  unfolding blend_def by (intro frame_forEachPixel rgb_only_blend_step)

lemma frame_vignette:
  assumes "frame pixels q"
  shows "frame pixels (vignette q amount)"
proof -
  let ?d = "fold (\<lambda>y d. fold (\<lambda>x d. vignette_step (width q) (real (width q) / 2) (real (height q) / 2)
      (sqrt (real (width q) / 2 * (real (width q) / 2) + real (height q) / 2 * (real (height q) / 2)))
      amount y x d) [0..<width q] d) [0..<height q] (data q)"
  have "rgb_only (fold (\<lambda>y d. fold (\<lambda>x d. vignette_step (width q) (real (width q) / 2) (real (height q) / 2)
      (sqrt (real (width q) / 2 * (real (width q) / 2) + real (height q) / 2 * (real (height q) / 2)))
      amount y x d) [0..<width q] d) [0..<height q])"
    by (rule rgb_only_vignette_nest)
  then have a: "same_alpha (data q) ?d" and r: "list_all (\<lambda>c. c \<le> 255) ?d"
    using assms by (simp_all add: rgb_only_def frame_def wf_image_def)
  from a have "length ?d = length (data q)" by (simp add: same_alpha_iff)
  with a r assms have "frame pixels (q\<lparr>data := ?d\<rparr>)"
    by (auto simp: frame_def wf_image_def intro: same_alpha_trans)
  then show ?thesis
    by (simp add: vignette_def Let_def)
qed

lemma frame_convolute:
  assumes "frame pixels q"
  shows "frame pixels (convolute q weights)"
proof -
  have wf: "wf_image q" using assms(1) by (simp add: frame_def)
  then have range: "list_all (\<lambda>c. c \<le> 255) (data q)" by (simp add: wf_image_def)
  let ?d = "map (convolute_out q weights) [0..<length (data q)]"
  have "list_all (\<lambda>c. c \<le> 255) ?d"
    using convolute_out_le [OF range] by (simp add: list_all_iff)
  moreover have "same_alpha (data q) ?d"
    by (simp add: same_alpha_iff convolute_out_def Let_def split: prod.split)
  ultimately have "frame pixels (q\<lparr>data := ?d\<rparr>)"
    using assms(1) by (auto simp: frame_def wf_image_def intro: same_alpha_trans)
  then show ?thesis
    by (simp add: convolute_data [OF wf])
qed

lemma frame_sharpen: "frame pixels q \<Longrightarrow> frame pixels (sharpen q amount)"
  unfolding sharpen_def by (rule frame_convolute)

lemmas frame_operators =
  frame_grayscale frame_sepia frame_invert frame_brightness frame_hueSaturation frame_saturation
  frame_contrast frame_colorFilter frame_rgbAdjust frame_convolute frame_sharpen frame_vignette
  frame_noise

lemma frame_presets:
  assumes "wf_image pixels" "preset \<in> set filterPresets"
  shows "frame pixels (preset_apply preset pixels)"
  using assms(2) unfolding filterPresets_def
  by (auto simp: Let_def normal_def clarendon_def gingham_def reyes_def stinson_def earlybird_def
      toaster_def walden_def f1977_def brooklyn_def moon_def willow_def inkwell_def lark_def juno_def
      amaro_def mayfair_def rise_def valencia_def kelvin_def nashville_def vesper_def ashby_def
      charmes_def ginza_def hudson_def slumber_def aden_def perpetua_def crema_def ludwig_def
      xpro2_def lofi_def hefe_def brannan_def sutro_def skyline_def dogpatch_def maven_def
      helena_def sierra_def googleStyle_def googlePop_def googleVivid_def googleNatural_def
      googleHDR_def
      intro!: frame_operators frame_refl [OF assms(1)])

section \<open>Blending with the original\<close>

lemma blend_step_zero:
  assumes "length s = length orig" "4 * p + 2 < length orig" "list_all (\<lambda>c. c \<le> 255) orig"
  shows "blend_step 0 orig (4 * p) s = s[4 * p := orig ! (4 * p), 4 * p + 1 := orig ! (4 * p + 1),
           4 * p + 2 := orig ! (4 * p + 2)]"
proof -
  have "orig ! (4 * p) \<le> 255" "orig ! (4 * p + 1) \<le> 255" "orig ! (4 * p + 2) \<le> 255"
    using assms(2,3) by (simp_all add: list_all_length)
  then show ?thesis
    using assms(1,2)
    by (simp add: blend_step_def Let_def rd_def lift2_def wr_def stored_def ToUint8Clamp_of_nat)
qed

lemma blend_zero:
  assumes wf: "wf_image original" and fr: "frame original q"
  shows "blend (data original) q 0 = original"
proof -
  let ?n = "width original * height original"
  have len: "length (data original) = 4 * ?n" and range: "list_all (\<lambda>c. c \<le> 255) (data original)"
    using wf by (simp_all add: wf_image_def)
  have alpha: "same_alpha (data original) (data q)" and dims: "width q = width original" "height q = height original"
    using fr by (simp_all add: frame_def)
  then have lq: "length (data q) = 4 * ?n" using len by (simp add: same_alpha_iff)
  have "length (forEachPixel (blend_step 0 (data original)) (data q)) = length (data q) \<and>
      (\<forall>j<length (data q). forEachPixel (blend_step 0 (data original)) (data q) ! j = data original ! j)"
  proof (rule forEachPixel_nth [OF lq])
    fix p s
    assume p: "p < ?n" and ls: "length s = length (data q)"
      and same: "\<forall>j<length (data q). p \<le> j div 4 \<longrightarrow> s ! j = data q ! j"
    have step: "blend_step 0 (data original) (4 * p) s =
        s[4 * p := data original ! (4 * p), 4 * p + 1 := data original ! (4 * p + 1),
          4 * p + 2 := data original ! (4 * p + 2)]"
      by (rule blend_step_zero) (use p ls lq len range in simp_all)
    have "s[4 * p := data original ! (4 * p), 4 * p + 1 := data original ! (4 * p + 1),
          4 * p + 2 := data original ! (4 * p + 2)] ! j =
        (if j div 4 = p then data original ! j else s ! j)" if j: "j < length (data q)" for j
    proof -
      have upd: "s[4 * p := data original ! (4 * p), 4 * p + 1 := data original ! (4 * p + 1),
          4 * p + 2 := data original ! (4 * p + 2)] ! j =
        (if j div 4 = p
         then (if j mod 4 = 0 then data original ! (4 * p)
               else if j mod 4 = 1 then data original ! (4 * p + 1)
               else if j mod 4 = 2 then data original ! (4 * p + 2) else s ! j)
         else s ! j)"
        by (rule nth_pixel_update) (use j ls in simp)
      have "j mod 4 = 0 \<or> j mod 4 = 1 \<or> j mod 4 = 2 \<or> j mod 4 = 3" by presburger
      moreover have "j = 4 * p + j mod 4" if "j div 4 = p" using that by auto
      moreover have "s ! j = data original ! j" if "j div 4 = p" "j mod 4 = 3"
        using that same alpha j lq len by (simp add: same_alpha_iff)
      ultimately show ?thesis
        unfolding upd by auto
    qed
    then show "length (blend_step 0 (data original) (4 * p) s) = length (data q) \<and>
        (\<forall>j<length (data q). blend_step 0 (data original) (4 * p) s ! j =
           (if j div 4 = p then data original ! j else s ! j))"
      by (simp add: step ls)
  qed
  then have "forEachPixel (blend_step 0 (data original)) (data q) = data original"
    using lq len by (intro nth_equalityI) simp_all
  then show ?thesis
    using dims by (simp add: blend_def)
qed

lemma blend_step_one:
  assumes "length d = 4 * n" "p < n" "list_all (\<lambda>c. c \<le> 255) d" "length orig = length d"
  shows "blend_step 1 orig (4 * p) d = d"
  using pixel_in_buffer [OF assms(1-3)] assms(4)
  by (simp add: blend_step_def Let_def rd_def lift2_def wr_same)

lemma blend_one:
  assumes "wf_image q" and "length orig = length (data q)"
  shows "blend orig q 1 = q"
proof -
  note wf = wf_image_pixels [OF assms(1)]
  have "forEachPixel (blend_step 1 orig) (data q) = data q"
    by (rule forEachPixel_fixed [OF wf(1)]) (rule blend_step_one [OF wf(1) _ wf(2) assms(2)])
  then show ?thesis by (simp add: blend_def)
qed

lemma getFilterById_in_catalog: "getFilterById ident = Some preset \<Longrightarrow> preset \<in> set filterPresets"
  by (auto simp: getFilterById_def find_Some_iff)

lemma getFilterById_normal: "getFilterById ''normal'' = Some preset \<Longrightarrow> preset_apply preset pixels = pixels"
  by (auto simp: getFilterById_def filterPresets_def normal_def)

section \<open>The colour conversions\<close>

text \<open>Without rounding they are \<open>RGBtoHSV\<close> and \<open>HSVtoRGB\<close>.\<close>

lemma RGBtoHSV_rounded_exact: "RGBtoHSV_rounded (\<lambda>x. x) = RGBtoHSV"
  by (simp add: fun_eq_iff RGBtoHSV_rounded_def RGBtoHSV_def Let_def)

lemma HSVtoRGB_rounded_exact: "HSVtoRGB_rounded (\<lambda>x. x) = HSVtoRGB"
  by (simp add: fun_eq_iff HSVtoRGB_rounded_def HSVtoRGB_def Let_def)

lemma rounds_exact: "rounds_like_double (\<lambda>x. x)"
  by (simp add: rounds_like_double_def)

lemma rounds_grid: "rounds_like_double round_to_grid"
proof -
  have "round_to_grid 0 = 0"
    by (simp add: round_to_grid_def)
  moreover have "round_to_grid x \<le> round_to_grid y" if "x \<le> y" for x y
  proof -
    have "round (x * 2 ^ 40) \<le> round (y * 2 ^ 40)"
      by (rule round_mono) (use that in simp)
    then show ?thesis
      unfolding round_to_grid_def by (simp add: divide_right_mono)
  qed
  moreover have "\<bar>round_to_grid x - x\<bar> \<le> 1 / 10 ^ 9" for x
  proof -
    define w where "w = real_of_int (round (x * 2 ^ 40)) - x * 2 ^ 40"
    have w: "\<bar>w\<bar> \<le> 1 / 2"
      unfolding w_def by (rule of_int_round_abs_le)
    have e: "round_to_grid x - x = w / 2 ^ 40"
      unfolding round_to_grid_def w_def by (simp add: diff_divide_distrib)
    have "\<bar>w / 2 ^ 40\<bar> \<le> 1 / 10 ^ 9"
      using w by simp
    then show ?thesis
      unfolding e .
  qed
  ultimately show ?thesis
    unfolding rounds_like_double_def by blast
qed

subsection \<open>The ramps\<close>

lemma max_close:
  fixes a b c d e :: real
  shows "\<bar>a - c\<bar> \<le> e \<Longrightarrow> \<bar>b - d\<bar> \<le> e \<Longrightarrow> \<bar>max a b - max c d\<bar> \<le> e"
  by linarith

lemma min_close:
  fixes a b c d e :: real
  shows "\<bar>a - c\<bar> \<le> e \<Longrightarrow> \<bar>b - d\<bar> \<le> e \<Longrightarrow> \<bar>min a b - min c d\<bar> \<le> e"
  by linarith

lemma ramp_lipschitz:
  "\<bar>ramp_r a - ramp_r b\<bar> \<le> \<bar>a - b\<bar>" "\<bar>ramp_g a - ramp_g b\<bar> \<le> \<bar>a - b\<bar>"
  "\<bar>ramp_b a - ramp_b b\<bar> \<le> \<bar>a - b\<bar>"
  unfolding ramp_r_def ramp_g_def ramp_b_def
  by (intro max_close min_close; simp)+

lemma ramp_sector:
  fixes h :: real
  shows "0 \<le> h \<Longrightarrow> h \<le> 1 \<Longrightarrow> ramp_r h = 0 \<and> ramp_g h = 1 - h \<and> ramp_b h = 1"
    and "1 \<le> h \<Longrightarrow> h \<le> 2 \<Longrightarrow> ramp_r h = h - 1 \<and> ramp_g h = 0 \<and> ramp_b h = 1"
    and "2 \<le> h \<Longrightarrow> h \<le> 3 \<Longrightarrow> ramp_r h = 1 \<and> ramp_g h = 0 \<and> ramp_b h = 3 - h"
    and "3 \<le> h \<Longrightarrow> h \<le> 4 \<Longrightarrow> ramp_r h = 1 \<and> ramp_g h = h - 3 \<and> ramp_b h = 0"
    and "4 \<le> h \<Longrightarrow> h \<le> 5 \<Longrightarrow> ramp_r h = 5 - h \<and> ramp_g h = 1 \<and> ramp_b h = 0"
    and "5 \<le> h \<Longrightarrow> h \<le> 6 \<Longrightarrow> ramp_r h = 0 \<and> ramp_g h = 1 \<and> ramp_b h = h - 5"
    and "6 \<le> h \<Longrightarrow> h \<le> 7 \<Longrightarrow> ramp_r h = 0 \<and> ramp_g h = 7 - h \<and> ramp_b h = 1"
  by (simp_all add: ramp_r_def ramp_g_def ramp_b_def min_def max_def)

lemma sextant:
  fixes hi mid lo :: real
  assumes "lo \<le> mid" "mid \<le> hi" "lo < hi"
  shows "0 \<le> (mid - lo) / (hi - lo) + 0 \<and> (mid - lo) / (hi - lo) + 0 \<le> 6 \<and>
      ramp_rgb hi (hi - lo) ((mid - lo) / (hi - lo) + 0) = (hi, mid, lo)"
    and "0 \<le> (lo - mid) / (hi - lo) + 2 \<and> (lo - mid) / (hi - lo) + 2 \<le> 6 \<and>
      ramp_rgb hi (hi - lo) ((lo - mid) / (hi - lo) + 2) = (mid, hi, lo)"
    and "0 \<le> (mid - lo) / (hi - lo) + 2 \<and> (mid - lo) / (hi - lo) + 2 \<le> 6 \<and>
      ramp_rgb hi (hi - lo) ((mid - lo) / (hi - lo) + 2) = (lo, hi, mid)"
    and "0 \<le> (lo - mid) / (hi - lo) + 4 \<and> (lo - mid) / (hi - lo) + 4 \<le> 6 \<and>
      ramp_rgb hi (hi - lo) ((lo - mid) / (hi - lo) + 4) = (lo, mid, hi)"
    and "0 \<le> (mid - lo) / (hi - lo) + 4 \<and> (mid - lo) / (hi - lo) + 4 \<le> 6 \<and>
      ramp_rgb hi (hi - lo) ((mid - lo) / (hi - lo) + 4) = (mid, lo, hi)"
    and "0 \<le> (lo - mid) / (hi - lo) + 6 \<and> (lo - mid) / (hi - lo) + 6 \<le> 6 \<and>
      ramp_rgb hi (hi - lo) ((lo - mid) / (hi - lo) + 6) = (hi, lo, mid)"
proof -
  define D where "D = hi - lo"
  define u where "u = (mid - lo) / D"
  have D: "0 < D"
    unfolding D_def using assms by simp
  have u: "0 \<le> u" "u \<le> 1"
    unfolding u_def using D assms by (simp_all add: D_def)
  have uD: "D * u = mid - lo"
    unfolding u_def using D by simp
  have pos: "(mid - lo) / (hi - lo) = u"
    unfolding u_def D_def ..
  have neg: "(lo - mid) / (hi - lo) = - u"
    unfolding u_def D_def by (simp add: minus_divide_left)
  have Dd: "hi - lo = D"
    unfolding D_def ..
  have r: "hi - D * 0 = hi" "hi - D * 1 = lo" "hi - D * (1 - u) = mid"
    using uD by (simp_all add: right_diff_distrib D_def)
  have "ramp_rgb hi D (u + 0) = (hi - D * 0, hi - D * (1 - u), hi - D * 1)"
    using ramp_sector(1) [of "u + 0"] u by (simp add: ramp_rgb_def)
  then have "ramp_rgb hi D (u + 0) = (hi, mid, lo)"
    unfolding r .
  then show "0 \<le> (mid - lo) / (hi - lo) + 0 \<and> (mid - lo) / (hi - lo) + 0 \<le> 6 \<and>
      ramp_rgb hi (hi - lo) ((mid - lo) / (hi - lo) + 0) = (hi, mid, lo)"
    unfolding pos unfolding Dd using u by simp
  have "ramp_rgb hi D (- u + 2) = (hi - D * (1 - u), hi - D * 0, hi - D * 1)"
    using ramp_sector(2) [of "- u + 2"] u by (simp add: ramp_rgb_def)
  then have "ramp_rgb hi D (- u + 2) = (mid, hi, lo)"
    unfolding r .
  then show "0 \<le> (lo - mid) / (hi - lo) + 2 \<and> (lo - mid) / (hi - lo) + 2 \<le> 6 \<and>
      ramp_rgb hi (hi - lo) ((lo - mid) / (hi - lo) + 2) = (mid, hi, lo)"
    unfolding neg unfolding Dd using u by simp
  have "ramp_rgb hi D (u + 2) = (hi - D * 1, hi - D * 0, hi - D * (1 - u))"
    using ramp_sector(3) [of "u + 2"] u by (simp add: ramp_rgb_def)
  then have "ramp_rgb hi D (u + 2) = (lo, hi, mid)"
    unfolding r .
  then show "0 \<le> (mid - lo) / (hi - lo) + 2 \<and> (mid - lo) / (hi - lo) + 2 \<le> 6 \<and>
      ramp_rgb hi (hi - lo) ((mid - lo) / (hi - lo) + 2) = (lo, hi, mid)"
    unfolding pos unfolding Dd using u by simp
  have "ramp_rgb hi D (- u + 4) = (hi - D * 1, hi - D * (1 - u), hi - D * 0)"
    using ramp_sector(4) [of "- u + 4"] u by (simp add: ramp_rgb_def)
  then have "ramp_rgb hi D (- u + 4) = (lo, mid, hi)"
    unfolding r .
  then show "0 \<le> (lo - mid) / (hi - lo) + 4 \<and> (lo - mid) / (hi - lo) + 4 \<le> 6 \<and>
      ramp_rgb hi (hi - lo) ((lo - mid) / (hi - lo) + 4) = (lo, mid, hi)"
    unfolding neg unfolding Dd using u by simp
  have "ramp_rgb hi D (u + 4) = (hi - D * (1 - u), hi - D * 1, hi - D * 0)"
    using ramp_sector(5) [of "u + 4"] u by (simp add: ramp_rgb_def)
  then have "ramp_rgb hi D (u + 4) = (mid, lo, hi)"
    unfolding r .
  then show "0 \<le> (mid - lo) / (hi - lo) + 4 \<and> (mid - lo) / (hi - lo) + 4 \<le> 6 \<and>
      ramp_rgb hi (hi - lo) ((mid - lo) / (hi - lo) + 4) = (mid, lo, hi)"
    unfolding pos unfolding Dd using u by simp
  have "ramp_rgb hi D (- u + 6) = (hi - D * 0, hi - D * 1, hi - D * (1 - u))"
    using ramp_sector(6) [of "- u + 6"] u by (simp add: ramp_rgb_def)
  then have "ramp_rgb hi D (- u + 6) = (hi, lo, mid)"
    unfolding r .
  then show "0 \<le> (lo - mid) / (hi - lo) + 6 \<and> (lo - mid) / (hi - lo) + 6 \<le> 6 \<and>
      ramp_rgb hi (hi - lo) ((lo - mid) / (hi - lo) + 6) = (hi, lo, mid)"
    unfolding neg unfolding Dd using u by simp
qed

subsection \<open>The error of one operation\<close>

lemma rounds_accurate:
  "rounds_like_double rnd \<Longrightarrow> \<bar>x\<bar> \<le> 1024 \<Longrightarrow> \<bar>rnd x - x\<bar> \<le> 1 / 1000000000"
  by (simp add: rounds_like_double_def)

lemma rounds_mono: "rounds_like_double rnd \<Longrightarrow> x \<le> y \<Longrightarrow> rnd x \<le> rnd y"
  by (simp add: rounds_like_double_def)

lemma rounds_nonneg: "rounds_like_double rnd \<Longrightarrow> 0 \<le> x \<Longrightarrow> 0 \<le> rnd x"
  using rounds_mono [of rnd 0 x] by (simp add: rounds_like_double_def)

lemma rounds_close:
  assumes "rounds_like_double rnd" and "\<bar>a - A\<bar> \<le> e" and "\<bar>a\<bar> \<le> 1024"
  shows "\<bar>rnd a - A\<bar> \<le> e + 1 / 1000000000"
  using rounds_accurate [OF assms(1,3)] assms(2) by linarith

lemma mult_close:
  fixes a b A B :: real
  assumes "\<bar>a - A\<bar> \<le> e1" and "\<bar>b - B\<bar> \<le> e2" and "\<bar>A\<bar> \<le> 1" and "\<bar>b\<bar> \<le> 2"
  shows "\<bar>a * b - A * B\<bar> \<le> 2 * e1 + e2"
proof -
  have "a * b - A * B = (a - A) * b + A * (b - B)"
    by (simp add: algebra_simps)
  moreover have "\<bar>(a - A) * b\<bar> \<le> e1 * 2"
    unfolding abs_mult by (rule mult_mono) (use assms in simp_all)
  moreover have "\<bar>A * (b - B)\<bar> \<le> 1 * e2"
    unfolding abs_mult by (rule mult_mono) (use assms in simp_all)
  ultimately show ?thesis
    by linarith
qed

lemma div_close:
  fixes n N d D e :: real
  assumes "\<bar>n - N\<bar> \<le> e" and "\<bar>d - D\<bar> \<le> e" and "\<bar>N\<bar> \<le> D" and "1 / 255 \<le> D"
    and "e \<le> 1 / 100000"
  shows "\<bar>n / d - N / D\<bar> \<le> 520 * e"
proof -
  have D: "0 < D" and d: "1 / 260 \<le> d"
    using assms by linarith+
  have e: "0 \<le> e"
    using assms(1) by linarith
  have q: "\<bar>N / D\<bar> \<le> 1"
    using assms(3) D by (simp add: field_simps)
  define w where "w = N / D * (d - D)"
  have "n / d - N / D = ((n - N) - w) / d"
    unfolding w_def using D d by (simp add: field_simps)
  moreover have "\<bar>w\<bar> \<le> 1 * e"
    unfolding w_def abs_mult by (rule mult_mono) (use assms q in simp_all)
  then have w: "\<bar>(n - N) - w\<bar> \<le> 2 * e"
    using assms(1) by linarith
  have d': "1 / 260 \<le> \<bar>d\<bar>"
    using d by linarith
  have "\<bar>((n - N) - w) / d\<bar> \<le> 2 * e / (1 / 260)"
    unfolding abs_divide by (rule frac_le) (use d' e w in simp_all)
  ultimately show ?thesis
    by simp
qed

lemma unit_product:
  fixes a b :: real
  assumes "0 \<le> a" "a \<le> 1" "0 \<le> b" "b \<le> 1"
  shows "0 \<le> a * b" "a * b \<le> 1" "0 \<le> a - a * b" "a - a * b \<le> 1"
proof -
  show "0 \<le> a * b"
    using assms by simp
  show "a * b \<le> 1"
    using assms by (simp add: mult_le_one)
  have "a * b \<le> a * 1"
    by (rule mult_left_mono) (use assms in simp_all)
  then show "0 \<le> a - a * b"
    by simp
  show "a - a * b \<le> 1"
    using \<open>0 \<le> a * b\<close> assms by linarith
qed

lemma rounds_byte_less:
  fixes a b :: nat
  assumes "rounds_like_double rnd" and "a < b" and "b \<le> 255"
  shows "rnd (real a / 255) < rnd (real b / 255)"
proof -
  have "real a + 1 \<le> real b"
    using assms(2) by linarith
  then have "real a / 255 + 1 / 255 \<le> real b / 255"
    by simp
  moreover have "\<bar>rnd (real a / 255) - real a / 255\<bar> \<le> 1 / 1000000000"
    by (rule rounds_accurate [OF assms(1)]) (use assms in simp)
  moreover have "\<bar>rnd (real b / 255) - real b / 255\<bar> \<le> 1 / 1000000000"
    by (rule rounds_accurate [OF assms(1)]) (use assms in simp)
  ultimately show ?thesis
    by linarith
qed

lemma rounded_bytes:
  fixes a b :: nat
  assumes R: "rounds_like_double rnd" and "a \<le> 255" "b \<le> 255"
  shows "rnd (real a / 255) < rnd (real b / 255) \<longleftrightarrow> a < b"
    and "rnd (real a / 255) \<le> rnd (real b / 255) \<longleftrightarrow> a \<le> b"
    and "rnd (real a / 255) = rnd (real b / 255) \<longleftrightarrow> a = b"
proof -
  have lt: "rnd (real c / 255) < rnd (real d / 255)" if "c < d" "d \<le> 255" for c d :: nat
    using rounds_byte_less [OF R that] .
  show "rnd (real a / 255) < rnd (real b / 255) \<longleftrightarrow> a < b"
    using lt [of a b] lt [of b a] assms(2,3) by (cases a b rule: linorder_cases) auto
  show "rnd (real a / 255) \<le> rnd (real b / 255) \<longleftrightarrow> a \<le> b"
    using lt [of a b] lt [of b a] assms(2,3) by (cases a b rule: linorder_cases) auto
  show "rnd (real a / 255) = rnd (real b / 255) \<longleftrightarrow> a = b"
    using lt [of a b] lt [of b a] assms(2,3) by (cases a b rule: linorder_cases) auto
qed

lemma rounded_byte_zero:
  fixes a :: nat
  assumes R: "rounds_like_double rnd" and "a \<le> 255"
  shows "rnd (real a / 255) = 0 \<longleftrightarrow> a = 0"
proof -
  have "rnd (real (0::nat) / 255) = 0"
    using R by (simp add: rounds_like_double_def)
  then show ?thesis
    using rounded_bytes(3) [OF R assms(2), of 0] by simp
qed

text \<open>With \<open>hi\<close> the largest and \<open>lo\<close> the smallest of three bytes that are not all equal, the
  divisors \<open>max\<close> and \<open>d\<close> of \<open>RGBtoHSV\<close> are positive.\<close>

lemma rounded_divisors_positive:
  fixes hi lo :: nat
  assumes R: "rounds_like_double rnd" and "lo < hi" "hi \<le> 255"
  shows "0 < rnd (real hi / 255)" and "0 < rnd (rnd (real hi / 255) - rnd (real lo / 255))"
proof -
  have "real lo + 1 \<le> real hi"
    using assms(2) by linarith
  then have gap: "real lo / 255 + 1 / 255 \<le> real hi / 255"
    by simp
  have hi: "\<bar>rnd (real hi / 255) - real hi / 255\<bar> \<le> 1 / 1000000000"
    by (rule rounds_accurate [OF R]) (use assms in simp)
  have lo: "\<bar>rnd (real lo / 255) - real lo / 255\<bar> \<le> 1 / 1000000000"
    by (rule rounds_accurate [OF R]) (use assms in simp)
  have le: "real hi / 255 \<le> 1"
    using assms(3) by simp
  show "0 < rnd (real hi / 255)"
    using gap hi by linarith
  have "\<bar>rnd (real hi / 255) - rnd (real lo / 255)\<bar> \<le> 1024"
    using gap hi lo le by linarith
  then have "\<bar>rnd (rnd (real hi / 255) - rnd (real lo / 255)) -
      (rnd (real hi / 255) - rnd (real lo / 255))\<bar> \<le> 1 / 1000000000"
    by (rule rounds_accurate [OF R])
  then show "0 < rnd (rnd (real hi / 255) - rnd (real lo / 255))"
    using gap hi lo by linarith
qed

subsection \<open>From RGB to HSV\<close>

lemma hue_close:
  fixes a b D ah bh dh ofs :: real
  assumes R: "rounds_like_double rnd"
    and a: "\<bar>ah - a\<bar> \<le> 1 / 1000000000" and b: "\<bar>bh - b\<bar> \<le> 1 / 1000000000"
    and d: "\<bar>dh - D\<bar> \<le> 3 / 1000000000"
    and D: "1 / 255 \<le> D" "D \<le> 1" and N: "\<bar>a - b\<bar> \<le> D"
    and ofs: "(ofs = 0 \<and> bh \<le> ah) \<or> (2 \<le> ofs \<and> ofs \<le> 6)"
  shows "0 \<le> rnd (rnd (rnd (rnd (rnd (ah - bh) / dh) + ofs) / 6) * 6) \<and>
    \<bar>rnd (rnd (rnd (rnd (rnd (ah - bh) / dh) + ofs) / 6) * 6) - ((a - b) / D + ofs)\<bar>
       \<le> 2 / 1000000"
proof -
  define nh where "nh = rnd (ah - bh)"
  define uh where "uh = rnd (nh / dh)"
  define h0 where "h0 = rnd (uh + ofs)"
  define h where "h = rnd (h0 / 6)"
  define Hh where "Hh = rnd (h * 6)"
  define u where "u = (a - b) / D"
  have u: "\<bar>u\<bar> \<le> 1"
    unfolding u_def using N D by (simp add: field_simps)
  have ofs': "0 \<le> ofs" "ofs \<le> 6"
    using ofs by auto
  have dh: "0 < dh"
    using d D by linarith
  have "\<bar>(ah - bh) - (a - b)\<bar> \<le> 2 / 1000000000"
    using a b by linarith
  moreover have "\<bar>ah - bh\<bar> \<le> 1024"
    using a b N D by linarith
  ultimately have nh: "\<bar>nh - (a - b)\<bar> \<le> 3 / 1000000000"
    unfolding nh_def using rounds_close [OF R, of "ah - bh" "a - b" "2 / 1000000000"] by simp
  have q: "\<bar>nh / dh - u\<bar> \<le> 520 * (3 / 1000000000)"
    unfolding u_def by (rule div_close [OF nh d N D(1)]) simp
  moreover have "\<bar>nh / dh\<bar> \<le> 1024"
    using q u by linarith
  ultimately have uh: "\<bar>uh - u\<bar> \<le> 1561 / 1000000000"
    unfolding uh_def using rounds_close [OF R, of "nh / dh" u "520 * (3 / 1000000000)"] by simp
  have "\<bar>(uh + ofs) - (u + ofs)\<bar> \<le> 1561 / 1000000000"
    using uh by simp
  moreover have "\<bar>uh + ofs\<bar> \<le> 1024"
    using uh u ofs' by linarith
  ultimately have h0: "\<bar>h0 - (u + ofs)\<bar> \<le> 1562 / 1000000000"
    unfolding h0_def using rounds_close [OF R, of "uh + ofs" "u + ofs" "1561 / 1000000000"]
    by simp
  have "\<bar>h0 / 6 - (u + ofs) / 6\<bar> \<le> 261 / 1000000000"
    using h0 by (simp add: field_simps)
  moreover have "\<bar>h0 / 6\<bar> \<le> 1024"
    using h0 u ofs' by linarith
  ultimately have h: "\<bar>h - (u + ofs) / 6\<bar> \<le> 262 / 1000000000"
    unfolding h_def using rounds_close [OF R, of "h0 / 6" "(u + ofs) / 6" "261 / 1000000000"]
    by simp
  have h6: "\<bar>h * 6 - (u + ofs)\<bar> \<le> 1572 / 1000000000"
    using h by (simp add: field_simps)
  moreover have "\<bar>h * 6\<bar> \<le> 1024"
    using h6 u ofs' by linarith
  ultimately have Hh: "\<bar>Hh - (u + ofs)\<bar> \<le> 1573 / 1000000000"
    unfolding Hh_def using rounds_close [OF R, of "h * 6" "u + ofs" "1572 / 1000000000"]
    by simp
  have "0 \<le> uh + ofs"
  proof (cases "ofs = 0 \<and> bh \<le> ah")
    case True
    then have "0 \<le> nh"
      unfolding nh_def by (intro rounds_nonneg [OF R]) simp
    then have "0 \<le> nh / dh"
      using dh by simp
    then have "0 \<le> uh"
      unfolding uh_def by (rule rounds_nonneg [OF R])
    then show ?thesis
      using True by simp
  next
    case False
    then have "2 \<le> ofs"
      using ofs by auto
    then show ?thesis
      using uh u by linarith
  qed
  then have "0 \<le> h0"
    unfolding h0_def by (rule rounds_nonneg [OF R])
  then have "0 \<le> h0 / 6"
    by simp
  then have "0 \<le> h"
    unfolding h_def by (rule rounds_nonneg [OF R])
  then have "0 \<le> h * 6"
    by simp
  then have "0 \<le> Hh"
    unfolding Hh_def by (rule rounds_nonneg [OF R])
  then show ?thesis
    using Hh unfolding Hh_def h_def h0_def uh_def nh_def u_def by linarith
qed

lemma hsv_case:
  fixes hi lo a b :: nat and ofs H :: real
  assumes R: "rounds_like_double rnd"
    and hl: "lo < hi" "hi \<le> 255" and a: "lo \<le> a" "a \<le> hi" and b: "lo \<le> b" "b \<le> hi"
    and ofs: "(ofs = 0 \<and> b \<le> a) \<or> (2 \<le> ofs \<and> ofs \<le> 6)"
    and H: "0 \<le> H" "H \<le> 6"
      "H = (real a / 255 - real b / 255) / (real hi / 255 - real lo / 255) + ofs"
  shows "hsv_close rnd
     (rnd (rnd (rnd (rnd (rnd (real a / 255) - rnd (real b / 255)) /
                 rnd (rnd (real hi / 255) - rnd (real lo / 255))) + ofs) / 6),
      rnd (rnd (rnd (real hi / 255) - rnd (real lo / 255)) / rnd (real hi / 255)),
      rnd (real hi / 255))
     H (real hi / 255) ((real hi / 255 - real lo / 255) / (real hi / 255))"
proof -
  define M where "M = real hi / 255"
  define m where "m = real lo / 255"
  define D where "D = M - m"
  define Mh where "Mh = rnd M"
  define mh where "mh = rnd m"
  define dh where "dh = rnd (Mh - mh)"
  define A where "A = real a / 255"
  define B where "B = real b / 255"
  have "real lo + 1 \<le> real hi"
    using hl(1) by linarith
  then have D: "1 / 255 \<le> D"
    unfolding D_def M_def m_def by simp
  have M: "0 \<le> m" "M \<le> 1" "1 / 255 \<le> M"
    using hl D unfolding D_def by (simp_all add: M_def m_def)
  have D1: "D \<le> 1"
    unfolding D_def using M by linarith
  have Mh: "\<bar>Mh - M\<bar> \<le> 1 / 1000000000"
    unfolding Mh_def by (rule rounds_accurate [OF R]) (use M in linarith)
  have mh: "\<bar>mh - m\<bar> \<le> 1 / 1000000000"
    unfolding mh_def by (rule rounds_accurate [OF R]) (use M D in \<open>simp add: D_def\<close>)
  have "\<bar>(Mh - mh) - D\<bar> \<le> 2 / 1000000000"
    unfolding D_def using Mh mh by linarith
  moreover have "\<bar>Mh - mh\<bar> \<le> 1024"
    using Mh mh M D unfolding D_def by linarith
  ultimately have dh: "\<bar>dh - D\<bar> \<le> 3 / 1000000000"
    unfolding dh_def using rounds_close [OF R, of "Mh - mh" D "2 / 1000000000"] by simp
  have Mh3: "\<bar>Mh - M\<bar> \<le> 3 / 1000000000"
    using Mh by linarith
  have S: "0 \<le> D / M" "D / M \<le> 1"
    using M D unfolding D_def by simp_all
  have q: "\<bar>dh / Mh - D / M\<bar> \<le> 520 * (3 / 1000000000)"
    by (rule div_close [OF dh Mh3]) (use M D in \<open>simp_all add: D_def\<close>)
  moreover have "\<bar>dh / Mh\<bar> \<le> 1024"
    using q S by linarith
  ultimately have s: "\<bar>rnd (dh / Mh) - D / M\<bar> \<le> 2 / 1000000"
    using rounds_close [OF R, of "dh / Mh" "D / M" "520 * (3 / 1000000000)"] by simp
  have AB: "m \<le> A" "A \<le> M" "m \<le> B" "B \<le> M"
    using a b by (simp_all add: A_def B_def M_def m_def)
  have Ah: "\<bar>rnd A - A\<bar> \<le> 1 / 1000000000"
    by (rule rounds_accurate [OF R]) (use AB M in linarith)
  have Bh: "\<bar>rnd B - B\<bar> \<le> 1 / 1000000000"
    by (rule rounds_accurate [OF R]) (use AB M in linarith)
  have N: "\<bar>A - B\<bar> \<le> D"
    unfolding D_def using AB by linarith
  have "b \<le> a \<Longrightarrow> rnd B \<le> rnd A"
    unfolding A_def B_def by (intro rounds_mono [OF R]) simp
  then have ofs': "(ofs = 0 \<and> rnd B \<le> rnd A) \<or> (2 \<le> ofs \<and> ofs \<le> 6)"
    using ofs by auto
  have hue: "0 \<le> rnd (rnd (rnd (rnd (rnd (rnd A - rnd B) / dh) + ofs) / 6) * 6) \<and>
      \<bar>rnd (rnd (rnd (rnd (rnd (rnd A - rnd B) / dh) + ofs) / 6) * 6) - ((A - B) / D + ofs)\<bar>
        \<le> 2 / 1000000"
    by (rule hue_close [OF R Ah Bh dh D D1 N ofs'])
  have HH: "H = (A - B) / D + ofs"
    unfolding H(3) A_def B_def D_def M_def m_def ..
  have "hsv_close rnd (rnd (rnd (rnd (rnd (rnd A - rnd B) / dh) + ofs) / 6), rnd (dh / Mh), Mh)
      H M (D / M)"
    unfolding hsv_close_def using hue S M Mh s H(1,2) unfolding HH by simp
  then show ?thesis
    unfolding A_def B_def dh_def Mh_def mh_def D_def M_def m_def .
qed

lemma RGBtoHSV_rounded_close:
  fixes r g b :: nat
  assumes R: "rounds_like_double rnd" and le: "r \<le> 255" "g \<le> 255" "b \<le> 255"
    and ne: "\<not> (r = g \<and> g = b)"
  shows "\<exists>H M S. hsv_close rnd (RGBtoHSV_rounded rnd (real r) (real g) (real b)) H M S \<and>
    ramp_rgb M (M * S) H = (real r / 255, real g / 255, real b / 255)"
proof -
  note rb = rounded_bytes [OF R] rounded_byte_zero [OF R]
  consider (X1) "g \<le> r" "b \<le> r" "b \<le> g" | (X2) "g \<le> r" "b \<le> r" "g < b"
    | (Y1) "r < g" "b \<le> g" "b \<le> r" | (Y2) "r < g" "b \<le> g" "r < b"
    | (Z1) "r < b" "g < b" "r \<le> g" | (Z2) "r < b" "g < b" "g < r"
    by linarith
  then show ?thesis
  proof cases
    case X1
    have lt: "b < r"
      using X1 ne by linarith
    have eq: "RGBtoHSV_rounded rnd (real r) (real g) (real b) =
        (rnd (rnd (rnd (rnd (rnd (real g / 255) - rnd (real b / 255)) / rnd (rnd (real r / 255) - rnd (real b / 255))) + 0) / 6),
         rnd (rnd (rnd (real r / 255) - rnd (real b / 255)) / rnd (real r / 255)), rnd (real r / 255))"
      unfolding RGBtoHSV_rounded_def Let_def using X1 lt le
      by (simp add: max_def min_def rb)
    have sx: "0 \<le> (real g / 255 - real b / 255) / (real r / 255 - real b / 255) + 0 \<and>
        (real g / 255 - real b / 255) / (real r / 255 - real b / 255) + 0 \<le> 6 \<and>
        ramp_rgb (real r / 255) (real r / 255 - real b / 255) ((real g / 255 - real b / 255) / (real r / 255 - real b / 255) + 0) =
          (real r / 255, real g / 255, real b / 255)"
      by (rule sextant(1) [of "real b / 255" "real g / 255" "real r / 255"]) (use X1 lt in simp_all)
    have "hsv_close rnd
        (rnd (rnd (rnd (rnd (rnd (real g / 255) - rnd (real b / 255)) / rnd (rnd (real r / 255) - rnd (real b / 255))) + 0) / 6),
         rnd (rnd (rnd (real r / 255) - rnd (real b / 255)) / rnd (real r / 255)), rnd (real r / 255))
        ((real g / 255 - real b / 255) / (real r / 255 - real b / 255) + 0) (real r / 255) ((real r / 255 - real b / 255) / (real r / 255))"
      by (rule hsv_case [OF R lt]) (use X1 lt le sx in simp_all)
    then have "hsv_close rnd (RGBtoHSV_rounded rnd (real r) (real g) (real b))
        ((real g / 255 - real b / 255) / (real r / 255 - real b / 255) + 0) (real r / 255) ((real r / 255 - real b / 255) / (real r / 255))"
      unfolding eq .
    moreover have "real r / 255 * ((real r / 255 - real b / 255) / (real r / 255)) = real r / 255 - real b / 255"
      using lt by simp
    ultimately show ?thesis
      using sx by metis
  next
    case X2
    have lt: "g < r"
      using X2 ne by linarith
    have eq: "RGBtoHSV_rounded rnd (real r) (real g) (real b) =
        (rnd (rnd (rnd (rnd (rnd (real g / 255) - rnd (real b / 255)) / rnd (rnd (real r / 255) - rnd (real g / 255))) + 6) / 6),
         rnd (rnd (rnd (real r / 255) - rnd (real g / 255)) / rnd (real r / 255)), rnd (real r / 255))"
      unfolding RGBtoHSV_rounded_def Let_def using X2 lt le
      by (simp add: max_def min_def rb)
    have sx: "0 \<le> (real g / 255 - real b / 255) / (real r / 255 - real g / 255) + 6 \<and>
        (real g / 255 - real b / 255) / (real r / 255 - real g / 255) + 6 \<le> 6 \<and>
        ramp_rgb (real r / 255) (real r / 255 - real g / 255) ((real g / 255 - real b / 255) / (real r / 255 - real g / 255) + 6) =
          (real r / 255, real g / 255, real b / 255)"
      by (rule sextant(6) [of "real g / 255" "real b / 255" "real r / 255"]) (use X2 lt in simp_all)
    have "hsv_close rnd
        (rnd (rnd (rnd (rnd (rnd (real g / 255) - rnd (real b / 255)) / rnd (rnd (real r / 255) - rnd (real g / 255))) + 6) / 6),
         rnd (rnd (rnd (real r / 255) - rnd (real g / 255)) / rnd (real r / 255)), rnd (real r / 255))
        ((real g / 255 - real b / 255) / (real r / 255 - real g / 255) + 6) (real r / 255) ((real r / 255 - real g / 255) / (real r / 255))"
      by (rule hsv_case [OF R lt]) (use X2 lt le sx in simp_all)
    then have "hsv_close rnd (RGBtoHSV_rounded rnd (real r) (real g) (real b))
        ((real g / 255 - real b / 255) / (real r / 255 - real g / 255) + 6) (real r / 255) ((real r / 255 - real g / 255) / (real r / 255))"
      unfolding eq .
    moreover have "real r / 255 * ((real r / 255 - real g / 255) / (real r / 255)) = real r / 255 - real g / 255"
      using lt by simp
    ultimately show ?thesis
      using sx by metis
  next
    case Y1
    have lt: "b < g"
      using Y1 ne by linarith
    have eq: "RGBtoHSV_rounded rnd (real r) (real g) (real b) =
        (rnd (rnd (rnd (rnd (rnd (real b / 255) - rnd (real r / 255)) / rnd (rnd (real g / 255) - rnd (real b / 255))) + 2) / 6),
         rnd (rnd (rnd (real g / 255) - rnd (real b / 255)) / rnd (real g / 255)), rnd (real g / 255))"
      unfolding RGBtoHSV_rounded_def Let_def using Y1 lt le
      by (simp add: max_def min_def rb)
    have sx: "0 \<le> (real b / 255 - real r / 255) / (real g / 255 - real b / 255) + 2 \<and>
        (real b / 255 - real r / 255) / (real g / 255 - real b / 255) + 2 \<le> 6 \<and>
        ramp_rgb (real g / 255) (real g / 255 - real b / 255) ((real b / 255 - real r / 255) / (real g / 255 - real b / 255) + 2) =
          (real r / 255, real g / 255, real b / 255)"
      by (rule sextant(2) [of "real b / 255" "real r / 255" "real g / 255"]) (use Y1 lt in simp_all)
    have "hsv_close rnd
        (rnd (rnd (rnd (rnd (rnd (real b / 255) - rnd (real r / 255)) / rnd (rnd (real g / 255) - rnd (real b / 255))) + 2) / 6),
         rnd (rnd (rnd (real g / 255) - rnd (real b / 255)) / rnd (real g / 255)), rnd (real g / 255))
        ((real b / 255 - real r / 255) / (real g / 255 - real b / 255) + 2) (real g / 255) ((real g / 255 - real b / 255) / (real g / 255))"
      by (rule hsv_case [OF R lt]) (use Y1 lt le sx in simp_all)
    then have "hsv_close rnd (RGBtoHSV_rounded rnd (real r) (real g) (real b))
        ((real b / 255 - real r / 255) / (real g / 255 - real b / 255) + 2) (real g / 255) ((real g / 255 - real b / 255) / (real g / 255))"
      unfolding eq .
    moreover have "real g / 255 * ((real g / 255 - real b / 255) / (real g / 255)) = real g / 255 - real b / 255"
      using lt by simp
    ultimately show ?thesis
      using sx by metis
  next
    case Y2
    have lt: "r < g"
      using Y2 ne by linarith
    have eq: "RGBtoHSV_rounded rnd (real r) (real g) (real b) =
        (rnd (rnd (rnd (rnd (rnd (real b / 255) - rnd (real r / 255)) / rnd (rnd (real g / 255) - rnd (real r / 255))) + 2) / 6),
         rnd (rnd (rnd (real g / 255) - rnd (real r / 255)) / rnd (real g / 255)), rnd (real g / 255))"
      unfolding RGBtoHSV_rounded_def Let_def using Y2 lt le
      by (simp add: max_def min_def rb)
    have sx: "0 \<le> (real b / 255 - real r / 255) / (real g / 255 - real r / 255) + 2 \<and>
        (real b / 255 - real r / 255) / (real g / 255 - real r / 255) + 2 \<le> 6 \<and>
        ramp_rgb (real g / 255) (real g / 255 - real r / 255) ((real b / 255 - real r / 255) / (real g / 255 - real r / 255) + 2) =
          (real r / 255, real g / 255, real b / 255)"
      by (rule sextant(3) [of "real r / 255" "real b / 255" "real g / 255"]) (use Y2 lt in simp_all)
    have "hsv_close rnd
        (rnd (rnd (rnd (rnd (rnd (real b / 255) - rnd (real r / 255)) / rnd (rnd (real g / 255) - rnd (real r / 255))) + 2) / 6),
         rnd (rnd (rnd (real g / 255) - rnd (real r / 255)) / rnd (real g / 255)), rnd (real g / 255))
        ((real b / 255 - real r / 255) / (real g / 255 - real r / 255) + 2) (real g / 255) ((real g / 255 - real r / 255) / (real g / 255))"
      by (rule hsv_case [OF R lt]) (use Y2 lt le sx in simp_all)
    then have "hsv_close rnd (RGBtoHSV_rounded rnd (real r) (real g) (real b))
        ((real b / 255 - real r / 255) / (real g / 255 - real r / 255) + 2) (real g / 255) ((real g / 255 - real r / 255) / (real g / 255))"
      unfolding eq .
    moreover have "real g / 255 * ((real g / 255 - real r / 255) / (real g / 255)) = real g / 255 - real r / 255"
      using lt by simp
    ultimately show ?thesis
      using sx by metis
  next
    case Z1
    have lt: "r < b"
      using Z1 ne by linarith
    have eq: "RGBtoHSV_rounded rnd (real r) (real g) (real b) =
        (rnd (rnd (rnd (rnd (rnd (real r / 255) - rnd (real g / 255)) / rnd (rnd (real b / 255) - rnd (real r / 255))) + 4) / 6),
         rnd (rnd (rnd (real b / 255) - rnd (real r / 255)) / rnd (real b / 255)), rnd (real b / 255))"
      unfolding RGBtoHSV_rounded_def Let_def using Z1 lt le
      by (simp add: max_def min_def rb)
    have sx: "0 \<le> (real r / 255 - real g / 255) / (real b / 255 - real r / 255) + 4 \<and>
        (real r / 255 - real g / 255) / (real b / 255 - real r / 255) + 4 \<le> 6 \<and>
        ramp_rgb (real b / 255) (real b / 255 - real r / 255) ((real r / 255 - real g / 255) / (real b / 255 - real r / 255) + 4) =
          (real r / 255, real g / 255, real b / 255)"
      by (rule sextant(4) [of "real r / 255" "real g / 255" "real b / 255"]) (use Z1 lt in simp_all)
    have "hsv_close rnd
        (rnd (rnd (rnd (rnd (rnd (real r / 255) - rnd (real g / 255)) / rnd (rnd (real b / 255) - rnd (real r / 255))) + 4) / 6),
         rnd (rnd (rnd (real b / 255) - rnd (real r / 255)) / rnd (real b / 255)), rnd (real b / 255))
        ((real r / 255 - real g / 255) / (real b / 255 - real r / 255) + 4) (real b / 255) ((real b / 255 - real r / 255) / (real b / 255))"
      by (rule hsv_case [OF R lt]) (use Z1 lt le sx in simp_all)
    then have "hsv_close rnd (RGBtoHSV_rounded rnd (real r) (real g) (real b))
        ((real r / 255 - real g / 255) / (real b / 255 - real r / 255) + 4) (real b / 255) ((real b / 255 - real r / 255) / (real b / 255))"
      unfolding eq .
    moreover have "real b / 255 * ((real b / 255 - real r / 255) / (real b / 255)) = real b / 255 - real r / 255"
      using lt by simp
    ultimately show ?thesis
      using sx by metis
  next
    case Z2
    have lt: "g < b"
      using Z2 ne by linarith
    have eq: "RGBtoHSV_rounded rnd (real r) (real g) (real b) =
        (rnd (rnd (rnd (rnd (rnd (real r / 255) - rnd (real g / 255)) / rnd (rnd (real b / 255) - rnd (real g / 255))) + 4) / 6),
         rnd (rnd (rnd (real b / 255) - rnd (real g / 255)) / rnd (real b / 255)), rnd (real b / 255))"
      unfolding RGBtoHSV_rounded_def Let_def using Z2 lt le
      by (simp add: max_def min_def rb)
    have sx: "0 \<le> (real r / 255 - real g / 255) / (real b / 255 - real g / 255) + 4 \<and>
        (real r / 255 - real g / 255) / (real b / 255 - real g / 255) + 4 \<le> 6 \<and>
        ramp_rgb (real b / 255) (real b / 255 - real g / 255) ((real r / 255 - real g / 255) / (real b / 255 - real g / 255) + 4) =
          (real r / 255, real g / 255, real b / 255)"
      by (rule sextant(5) [of "real g / 255" "real r / 255" "real b / 255"]) (use Z2 lt in simp_all)
    have "hsv_close rnd
        (rnd (rnd (rnd (rnd (rnd (real r / 255) - rnd (real g / 255)) / rnd (rnd (real b / 255) - rnd (real g / 255))) + 4) / 6),
         rnd (rnd (rnd (real b / 255) - rnd (real g / 255)) / rnd (real b / 255)), rnd (real b / 255))
        ((real r / 255 - real g / 255) / (real b / 255 - real g / 255) + 4) (real b / 255) ((real b / 255 - real g / 255) / (real b / 255))"
      by (rule hsv_case [OF R lt]) (use Z2 lt le sx in simp_all)
    then have "hsv_close rnd (RGBtoHSV_rounded rnd (real r) (real g) (real b))
        ((real r / 255 - real g / 255) / (real b / 255 - real g / 255) + 4) (real b / 255) ((real b / 255 - real g / 255) / (real b / 255))"
      unfolding eq .
    moreover have "real b / 255 * ((real b / 255 - real g / 255) / (real b / 255)) = real b / 255 - real g / 255"
      using lt by simp
    ultimately show ?thesis
      using sx by metis
  qed
qed

subsection \<open>From HSV to RGB\<close>

lemma mix_close:
  fixes v s w M S W :: real
  assumes R: "rounds_like_double rnd"
    and v: "\<bar>v - M\<bar> \<le> 1 / 1000000000" and s: "\<bar>s - S\<bar> \<le> 2 / 1000000"
    and w: "\<bar>w - W\<bar> \<le> 2 / 1000000000"
    and M: "0 \<le> M" "M \<le> 1" and S: "0 \<le> S" "S \<le> 1" and W: "0 \<le> W" "W \<le> 1"
  shows "\<bar>rnd (v * rnd (1 - rnd (w * s))) - (M - M * (S * W))\<bar> \<le> 3 / 1000000"
proof -
  define b1 where "b1 = rnd (w * s)"
  define b2 where "b2 = rnd (1 - b1)"
  have WS: "0 \<le> W * S" "W * S \<le> 1"
    using unit_product [OF W S] by simp_all
  have MWS: "0 \<le> M * (1 - W * S)" "M * (1 - W * S) \<le> 1"
    using unit_product(3,4) [OF M WS] by (simp_all add: algebra_simps)
  have "\<bar>w * s - W * S\<bar> \<le> 2 * (2 / 1000000000) + 2 / 1000000"
    by (rule mult_close [OF w s]) (use W s S in linarith)+
  moreover from this have "\<bar>w * s\<bar> \<le> 1024"
    using WS by linarith
  ultimately have b1: "\<bar>b1 - W * S\<bar> \<le> 2005 / 1000000000"
    unfolding b1_def
    using rounds_close [OF R, of "w * s" "W * S" "2 * (2 / 1000000000) + 2 / 1000000"] by simp
  have "\<bar>(1 - b1) - (1 - W * S)\<bar> \<le> 2005 / 1000000000"
    using b1 by linarith
  moreover have "\<bar>1 - b1\<bar> \<le> 1024"
    using b1 WS by linarith
  ultimately have b2: "\<bar>b2 - (1 - W * S)\<bar> \<le> 2006 / 1000000000"
    unfolding b2_def
    using rounds_close [OF R, of "1 - b1" "1 - W * S" "2005 / 1000000000"] by simp
  have "\<bar>v * b2 - M * (1 - W * S)\<bar> \<le> 2 * (1 / 1000000000) + 2006 / 1000000000"
    by (rule mult_close [OF v b2]) (use M b2 WS in linarith)+
  moreover from this have "\<bar>v * b2\<bar> \<le> 1024"
    using MWS by linarith
  ultimately have "\<bar>rnd (v * b2) - M * (1 - W * S)\<bar> \<le> 2009 / 1000000000"
    using rounds_close [OF R, of "v * b2" "M * (1 - W * S)"
        "2 * (1 / 1000000000) + 2006 / 1000000000"] by simp
  moreover have "M * (1 - W * S) = M - M * (S * W)"
    by (simp add: algebra_simps)
  ultimately show ?thesis
    unfolding b2_def b1_def by linarith
qed

lemma shade_close:
  fixes v s M S :: real
  assumes R: "rounds_like_double rnd"
    and v: "\<bar>v - M\<bar> \<le> 1 / 1000000000" and s: "\<bar>s - S\<bar> \<le> 2 / 1000000"
    and M: "0 \<le> M" "M \<le> 1" and S: "0 \<le> S" "S \<le> 1"
  shows "\<bar>rnd (v * rnd (1 - s)) - (M - M * S)\<bar> \<le> 3 / 1000000"
proof -
  define a1 where "a1 = rnd (1 - s)"
  have MS: "0 \<le> M * (1 - S)" "M * (1 - S) \<le> 1"
    using unit_product(3,4) [OF M S] by (simp_all add: algebra_simps)
  have "\<bar>(1 - s) - (1 - S)\<bar> \<le> 2 / 1000000"
    using s by linarith
  moreover have "\<bar>1 - s\<bar> \<le> 1024"
    using s S by linarith
  ultimately have a1: "\<bar>a1 - (1 - S)\<bar> \<le> 2001 / 1000000000"
    unfolding a1_def using rounds_close [OF R, of "1 - s" "1 - S" "2 / 1000000"] by simp
  have "\<bar>v * a1 - M * (1 - S)\<bar> \<le> 2 * (1 / 1000000000) + 2001 / 1000000000"
    by (rule mult_close [OF v a1]) (use M a1 S in linarith)+
  moreover from this have "\<bar>v * a1\<bar> \<le> 1024"
    using MS by linarith
  ultimately have "\<bar>rnd (v * a1) - M * (1 - S)\<bar> \<le> 2004 / 1000000000"
    using rounds_close [OF R, of "v * a1" "M * (1 - S)"
        "2 * (1 / 1000000000) + 2001 / 1000000000"] by simp
  moreover have "M * (1 - S) = M - M * S"
    by (simp add: algebra_simps)
  ultimately show ?thesis
    unfolding a1_def by linarith
qed

lemma scale_close:
  fixes c C :: real
  assumes R: "rounds_like_double rnd" and c: "\<bar>c - C\<bar> \<le> 3 / 1000000" and C: "0 \<le> C" "C \<le> 1"
  shows "\<bar>rnd (c * 255) - 255 * C\<bar> \<le> 1 / 1000"
proof -
  have "\<bar>c * 255 - 255 * C\<bar> \<le> 765 / 1000000"
    using c by linarith
  moreover have "\<bar>c * 255\<bar> \<le> 1024"
    using c C by linarith
  ultimately show ?thesis
    using rounds_close [OF R, of "c * 255" "255 * C" "765 / 1000000"] by simp
qed

lemma HSVtoRGB_rounded_close:
  fixes h s v M S :: real
  assumes R: "rounds_like_double rnd"
    and v: "\<bar>v - M\<bar> \<le> 1 / 1000000000" and s: "\<bar>s - S\<bar> \<le> 2 / 1000000"
    and M: "0 \<le> M" "M \<le> 1" and S: "0 \<le> S" "S \<le> 1"
    and H: "0 \<le> rnd (h * 6)" "rnd (h * 6) < 7"
  shows "case HSVtoRGB_rounded rnd h s v of (r', g', b') \<Rightarrow>
           (case ramp_rgb M (M * S) (rnd (h * 6)) of (x, y, z) \<Rightarrow>
              \<bar>r' - 255 * x\<bar> \<le> 1 / 1000 \<and> \<bar>g' - 255 * y\<bar> \<le> 1 / 1000 \<and>
              \<bar>b' - 255 * z\<bar> \<le> 1 / 1000)"
proof -
  define Hh where "Hh = rnd (h * 6)"
  define i where "i = \<lfloor>Hh\<rfloor>"
  define f' where "f' = Hh - real_of_int i"
  define fh where "fh = rnd f'"
  define c1 where "c1 = rnd (1 - fh)"
  define p where "p = rnd (v * rnd (1 - s))"
  define q where "q = rnd (v * rnd (1 - rnd (fh * s)))"
  define t where "t = rnd (v * rnd (1 - rnd (c1 * s)))"
  have i: "0 \<le> i" "i \<le> 6"
    using H unfolding i_def Hh_def [symmetric] by (simp_all add: floor_less_iff)
  have f': "0 \<le> f'" "f' < 1"
    unfolding f'_def i_def by linarith+
  have Hh: "Hh = real_of_int i + f'"
    unfolding f'_def by simp
  have fh: "\<bar>fh - f'\<bar> \<le> 1 / 1000000000"
    unfolding fh_def by (rule rounds_accurate [OF R]) (use f' in linarith)
  have "\<bar>(1 - fh) - (1 - f')\<bar> \<le> 1 / 1000000000"
    using fh by linarith
  moreover have "\<bar>1 - fh\<bar> \<le> 1024"
    using fh f' by linarith
  ultimately have c1: "\<bar>c1 - (1 - f')\<bar> \<le> 2 / 1000000000"
    unfolding c1_def using rounds_close [OF R, of "1 - fh" "1 - f'" "1 / 1000000000"] by simp
  have fh': "\<bar>fh - f'\<bar> \<le> 2 / 1000000000"
    using fh by linarith
  have tv: "\<bar>v - (M - M * (S * 0))\<bar> \<le> 3 / 1000000"
    using v by simp
  have tp: "\<bar>p - (M - M * (S * 1))\<bar> \<le> 3 / 1000000"
    unfolding p_def using shade_close [OF R v s M S] by simp
  have tq: "\<bar>q - (M - M * (S * f'))\<bar> \<le> 3 / 1000000"
    unfolding q_def by (rule mix_close [OF R v s fh' M S]) (use f' in linarith)+
  have tt: "\<bar>t - (M - M * (S * (1 - f')))\<bar> \<le> 3 / 1000000"
    unfolding t_def by (rule mix_close [OF R v s c1 M S]) (use f' in linarith)+
  have out: "\<bar>rnd (c * 255) - 255 * (M - M * S * W)\<bar> \<le> 1 / 1000"
    if "\<bar>c - (M - M * (S * W))\<bar> \<le> 3 / 1000000" "0 \<le> W" "W \<le> 1" for c W
  proof -
    have SW: "0 \<le> S * W" "S * W \<le> 1"
      using unit_product(1,2) [OF S that(2,3)] by simp_all
    have "\<bar>rnd (c * 255) - 255 * (M - M * (S * W))\<bar> \<le> 1 / 1000"
      by (rule scale_close [OF R that(1)]) (use unit_product(3,4) [OF M SW] in simp_all)
    then show ?thesis
      by (simp add: mult.assoc)
  qed
  have ov: "\<bar>rnd (v * 255) - 255 * (M - M * S * 0)\<bar> \<le> 1 / 1000"
    by (rule out [OF tv]) simp_all
  have op: "\<bar>rnd (p * 255) - 255 * (M - M * S * 1)\<bar> \<le> 1 / 1000"
    by (rule out [OF tp]) simp_all
  have oq: "\<bar>rnd (q * 255) - 255 * (M - M * S * f')\<bar> \<le> 1 / 1000"
    by (rule out [OF tq]) (use f' in simp_all)
  have ot: "\<bar>rnd (t * 255) - 255 * (M - M * S * (1 - f'))\<bar> \<le> 1 / 1000"
    by (rule out [OF tt]) (use f' in simp_all)
  have eq: "HSVtoRGB_rounded rnd h s v =
      (case (if js_rem i 6 = 0 then (v, t, p)
             else if js_rem i 6 = 1 then (q, v, p)
             else if js_rem i 6 = 2 then (p, v, t)
             else if js_rem i 6 = 3 then (p, q, v)
             else if js_rem i 6 = 4 then (t, p, v)
             else if js_rem i 6 = 5 then (v, p, q)
             else (0, 0, 0)) of
         (r, g, b) \<Rightarrow> (rnd (r * 255), rnd (g * 255), rnd (b * 255)))"
    unfolding HSVtoRGB_rounded_def Let_def p_def q_def t_def c1_def fh_def f'_def i_def Hh_def
    by (rule refl)
  have "i = 0 \<or> i = 1 \<or> i = 2 \<or> i = 3 \<or> i = 4 \<or> i = 5 \<or> i = 6"
    using i by presburger
  then consider (0) "i = 0" | (1) "i = 1" | (2) "i = 2" | (3) "i = 3" | (4) "i = 4"
    | (5) "i = 5" | (6) "i = 6"
    by blast
  then have "case HSVtoRGB_rounded rnd h s v of (r', g', b') \<Rightarrow>
           (case ramp_rgb M (M * S) Hh of (x, y, z) \<Rightarrow>
              \<bar>r' - 255 * x\<bar> \<le> 1 / 1000 \<and> \<bar>g' - 255 * y\<bar> \<le> 1 / 1000 \<and>
              \<bar>b' - 255 * z\<bar> \<le> 1 / 1000)"
  proof cases
    case 0
    have "ramp_rgb M (M * S) Hh = (M - M * S * 0, M - M * S * (1 - f'), M - M * S * 1)"
      using ramp_sector(1) [of Hh] f' unfolding Hh 0 by (simp add: ramp_rgb_def)
    then show ?thesis
      unfolding eq using ov ot op by (simp add: js_rem_def 0)
  next
    case 1
    have "ramp_rgb M (M * S) Hh = (M - M * S * f', M - M * S * 0, M - M * S * 1)"
      using ramp_sector(2) [of Hh] f' unfolding Hh 1 by (simp add: ramp_rgb_def)
    then show ?thesis
      unfolding eq using oq ov op by (simp add: js_rem_def 1)
  next
    case 2
    have "ramp_rgb M (M * S) Hh = (M - M * S * 1, M - M * S * 0, M - M * S * (1 - f'))"
      using ramp_sector(3) [of Hh] f' unfolding Hh 2 by (simp add: ramp_rgb_def)
    then show ?thesis
      unfolding eq using op ov ot by (simp add: js_rem_def 2)
  next
    case 3
    have "ramp_rgb M (M * S) Hh = (M - M * S * 1, M - M * S * f', M - M * S * 0)"
      using ramp_sector(4) [of Hh] f' unfolding Hh 3 by (simp add: ramp_rgb_def)
    then show ?thesis
      unfolding eq using op oq ov by (simp add: js_rem_def 3)
  next
    case 4
    have "ramp_rgb M (M * S) Hh = (M - M * S * (1 - f'), M - M * S * 1, M - M * S * 0)"
      using ramp_sector(5) [of Hh] f' unfolding Hh 4 by (simp add: ramp_rgb_def)
    then show ?thesis
      unfolding eq using ot op ov by (simp add: js_rem_def 4)
  next
    case 5
    have "ramp_rgb M (M * S) Hh = (M - M * S * 0, M - M * S * 1, M - M * S * f')"
      using ramp_sector(6) [of Hh] f' unfolding Hh 5 by (simp add: ramp_rgb_def)
    then show ?thesis
      unfolding eq using ov op oq by (simp add: js_rem_def 5)
  next
    case 6
    have "ramp_rgb M (M * S) Hh = (M - M * S * 0, M - M * S * (1 - f'), M - M * S * 1)"
      using ramp_sector(7) [of Hh] f' unfolding Hh 6 by (simp add: ramp_rgb_def)
    then show ?thesis
      unfolding eq using ov ot op by (simp add: js_rem_def 6)
  qed
  then show ?thesis
    unfolding Hh_def .
qed

lemma near_shift:
  fixes c M P Q :: real
  assumes "\<bar>c - 255 * (M - P)\<bar> \<le> 1 / 1000" and "\<bar>P - Q\<bar> \<le> 2 / 1000000"
  shows "\<bar>c - 255 * (M - Q)\<bar> \<le> 1 / 100"
  using assms unfolding right_diff_distrib by linarith

lemma round_trip_finish:
  fixes h s v H M S x y z :: real
  assumes R: "rounds_like_double rnd" and close: "hsv_close rnd (h, s, v) H M S"
    and exact: "ramp_rgb M (M * S) H = (x, y, z)"
  shows "case HSVtoRGB_rounded rnd h s v of (r', g', b') \<Rightarrow>
      \<bar>r' - 255 * x\<bar> \<le> 1 / 100 \<and> \<bar>g' - 255 * y\<bar> \<le> 1 / 100 \<and> \<bar>b' - 255 * z\<bar> \<le> 1 / 100"
proof -
  define Hh where "Hh = rnd (h * 6)"
  have c: "0 \<le> S" "S \<le> 1" "0 \<le> M" "M \<le> 1" "0 \<le> H" "H \<le> 6"
    "\<bar>v - M\<bar> \<le> 1 / 1000000000" "\<bar>s - S\<bar> \<le> 2 / 1000000"
    "0 \<le> Hh" "\<bar>Hh - H\<bar> \<le> 2 / 1000000"
    using close unfolding hsv_close_def Hh_def by simp_all
  have H7: "Hh < 7"
    using c by linarith
  have MS: "0 \<le> M * S" "M * S \<le> 1"
    using unit_product(1,2) [OF c(3,4,1,2)] .
  have lip: "\<bar>M * S * f Hh - M * S * f H\<bar> \<le> 2 / 1000000"
    if "\<bar>f Hh - f H\<bar> \<le> \<bar>Hh - H\<bar>" for f :: "real \<Rightarrow> real"
  proof -
    have "\<bar>M * S * (f Hh - f H)\<bar> \<le> 1 * (2 / 1000000)"
      unfolding abs_mult [of "M * S"] by (rule mult_mono) (use MS that c(10) in simp_all)
    then show ?thesis
      by (simp add: right_diff_distrib)
  qed
  have near: "case HSVtoRGB_rounded rnd h s v of (r', g', b') \<Rightarrow>
           (case ramp_rgb M (M * S) Hh of (x, y, z) \<Rightarrow>
              \<bar>r' - 255 * x\<bar> \<le> 1 / 1000 \<and> \<bar>g' - 255 * y\<bar> \<le> 1 / 1000 \<and>
              \<bar>b' - 255 * z\<bar> \<le> 1 / 1000)"
    unfolding Hh_def
    by (rule HSVtoRGB_rounded_close [OF R c(7,8,3,4,1,2)]) (use c(9) H7 in \<open>simp_all add: Hh_def\<close>)
  obtain r' g' b' where out: "HSVtoRGB_rounded rnd h s v = (r', g', b')"
    by (cases "HSVtoRGB_rounded rnd h s v") auto
  have n: "\<bar>r' - 255 * (M - M * S * ramp_r Hh)\<bar> \<le> 1 / 1000"
    "\<bar>g' - 255 * (M - M * S * ramp_g Hh)\<bar> \<le> 1 / 1000"
    "\<bar>b' - 255 * (M - M * S * ramp_b Hh)\<bar> \<le> 1 / 1000"
    using near unfolding out ramp_rgb_def by simp_all
  have e: "M - M * S * ramp_r H = x" "M - M * S * ramp_g H = y" "M - M * S * ramp_b H = z"
    using exact unfolding ramp_rgb_def by simp_all
  have "\<bar>r' - 255 * x\<bar> \<le> 1 / 100"
    unfolding e(1) [symmetric]
    by (rule near_shift [OF n(1) lip [of ramp_r, OF ramp_lipschitz(1)]])
  moreover have "\<bar>g' - 255 * y\<bar> \<le> 1 / 100"
    unfolding e(2) [symmetric]
    by (rule near_shift [OF n(2) lip [of ramp_g, OF ramp_lipschitz(2)]])
  moreover have "\<bar>b' - 255 * z\<bar> \<le> 1 / 100"
    unfolding e(3) [symmetric]
    by (rule near_shift [OF n(3) lip [of ramp_b, OF ramp_lipschitz(3)]])
  ultimately show ?thesis
    unfolding out by simp
qed

lemma round_near:
  fixes c :: real and n :: nat
  assumes "\<bar>c - 255 * (real n / 255)\<bar> \<le> 1 / 100"
  shows "round c = int n"
proof -
  have "\<bar>c - real n\<bar> \<le> 1 / 100"
    using assms by simp
  then have "real_of_int (int n) \<le> c + 1 / 2" "c + 1 / 2 < real_of_int (int n) + 1"
    by (simp_all; linarith)+
  then show ?thesis
    unfolding round_def by (intro floor_unique)
qed

section \<open>The operators on every image\<close>

lemma frame_rgb_in_range: "frame pixels out \<Longrightarrow> rgb_in_range out"
  by (auto simp: frame_def wf_image_def rgb_in_range_def colour_indices_def list_all_iff)

lemma frame_same_alpha: "frame pixels out \<Longrightarrow> same_alpha (data pixels) (data out)"
  by (simp add: frame_def)

text \<open>
  C1. For every image and every operator (grayscale, sepia, invert, brightness, hueSaturation,
  saturation, contrast, colorFilter, rgbAdjust, convolute, sharpen, vignette, noise), with any
  parameters, every R, G and B byte of the result is in [0,255]: the store into the byte buffer
  clamps also where the operator does not, as in grayscale and sepia.
\<close>

theorem channels_in_range:
  assumes "wf_image pixels"
  shows "rgb_in_range (grayscale pixels) \<and> rgb_in_range (sepia pixels a1) \<and>
     rgb_in_range (invert pixels) \<and> rgb_in_range (brightness pixels a2) \<and>
     rgb_in_range (hueSaturation pixels a3) \<and> rgb_in_range (saturation pixels a4) \<and>
     rgb_in_range (contrast pixels a5) \<and> rgb_in_range (colorFilter pixels rgbColor) \<and>
     rgb_in_range (rgbAdjust pixels rgbAdj) \<and> rgb_in_range (convolute pixels weights) \<and>
     rgb_in_range (sharpen pixels a6) \<and> rgb_in_range (vignette pixels a7) \<and>
     rgb_in_range (noise random pixels a8)"
  using frame_refl [OF assms]
  by (auto intro!: frame_rgb_in_range frame_operators)

theorem channels_in_range_witness:
  "wf_image \<lparr>width = 1, height = 1, data = [10, 20, 30, 255]\<rparr> \<and>
   rgb_in_range (grayscale \<lparr>width = 1, height = 1, data = [10, 20, 30, 255]\<rparr>) \<and>
   rgb_in_range (sepia \<lparr>width = 1, height = 1, data = [10, 20, 30, 255]\<rparr> 1) \<and>
   rgb_in_range (convolute \<lparr>width = 1, height = 1, data = [10, 20, 30, 255]\<rparr> [0, 0, 0, 0, 1, 0, 0, 0, 0])"
  using channels_in_range [of "\<lparr>width = 1, height = 1, data = [10, 20, 30, 255]\<rparr>" 1
      _ _ _ _ _ _ "[0, 0, 0, 0, 1, 0, 0, 0, 0]"]
  by (simp add: wf_image_def)

text \<open>
  C7. For every image and every operator, with any parameters, the result has the alpha byte
  of the input at every pixel.
\<close>

theorem alpha_unchanged:
  assumes "wf_image pixels"
  shows "same_alpha (data pixels) (data (grayscale pixels)) \<and>
     same_alpha (data pixels) (data (sepia pixels a1)) \<and>
     same_alpha (data pixels) (data (invert pixels)) \<and>
     same_alpha (data pixels) (data (brightness pixels a2)) \<and>
     same_alpha (data pixels) (data (hueSaturation pixels a3)) \<and>
     same_alpha (data pixels) (data (saturation pixels a4)) \<and>
     same_alpha (data pixels) (data (contrast pixels a5)) \<and>
     same_alpha (data pixels) (data (colorFilter pixels rgbColor)) \<and>
     same_alpha (data pixels) (data (rgbAdjust pixels rgbAdj)) \<and>
     same_alpha (data pixels) (data (convolute pixels weights)) \<and>
     same_alpha (data pixels) (data (sharpen pixels a6)) \<and>
     same_alpha (data pixels) (data (vignette pixels a7)) \<and>
     same_alpha (data pixels) (data (noise random pixels a8))"
  using frame_refl [OF assms]
  by (auto intro!: frame_same_alpha frame_operators)

theorem alpha_unchanged_witness:
  "wf_image \<lparr>width = 1, height = 1, data = [10, 20, 30, 200]\<rparr> \<and>
   same_alpha [10, 20, 30, 200] (data (invert \<lparr>width = 1, height = 1, data = [10, 20, 30, 200]\<rparr>)) \<and>
   same_alpha [10, 20, 30, 200]
     (data (convolute \<lparr>width = 1, height = 1, data = [10, 20, 30, 200]\<rparr> [0, 0, 0, 0, 1, 0, 0, 0, 0]))"
  using alpha_unchanged [of "\<lparr>width = 1, height = 1, data = [10, 20, 30, 200]\<rparr>"
      _ _ _ _ _ _ _ "[0, 0, 0, 0, 1, 0, 0, 0, 0]"]
  by (simp add: wf_image_def)

section \<open>Neutral parameters\<close>

text \<open>
  C5. On every image, brightness 0, contrast 0, saturation 0, sepia 0 and colorFilter with
  blend amount 0 (and any colour) return the image itself, byte for byte.
\<close>

theorem zero_adjustment_is_identity:
  assumes "wf_image pixels"
  shows "brightness pixels 0 = pixels \<and> contrast pixels 0 = pixels \<and> saturation pixels 0 = pixels \<and>
     sepia pixels 0 = pixels \<and> colorFilter pixels (cr, cg, cb, 0) = pixels"
proof -
  note wf = wf_image_pixels [OF assms]
  have "forEachPixel (brightness_step 0) (data pixels) = data pixels"
    by (rule forEachPixel_fixed [OF wf(1)]) (rule brightness_step_0 [OF wf(1) _ wf(2)])
  moreover have "forEachPixel (contrast_step (Some 1)) (data pixels) = data pixels"
    by (rule forEachPixel_fixed [OF wf(1)]) (rule contrast_step_0 [OF wf(1) _ wf(2)])
  moreover have "forEachPixel (saturation_step 0) (data pixels) = data pixels"
    by (rule forEachPixel_fixed [OF wf(1)]) (rule saturation_step_0 [OF wf(1) _ wf(2)])
  moreover have "forEachPixel (sepia_step 0) (data pixels) = data pixels"
    by (rule forEachPixel_fixed [OF wf(1)]) (rule sepia_step_0 [OF wf(1) _ wf(2)])
  moreover have "forEachPixel (colorFilter_step (cr, cg, cb, 0)) (data pixels) = data pixels"
    by (rule forEachPixel_fixed [OF wf(1)]) (rule colorFilter_step_0 [OF wf(1) _ wf(2)])
  ultimately show ?thesis
    by (simp add: brightness_def contrast_def saturation_def sepia_def colorFilter_def
        contrast_factor_0)
qed

theorem zero_adjustment_is_identity_witness:
  "wf_image \<lparr>width = 1, height = 1, data = [10, 20, 30, 255]\<rparr> \<and>
   brightness \<lparr>width = 1, height = 1, data = [10, 20, 30, 255]\<rparr> 0 =
     \<lparr>width = 1, height = 1, data = [10, 20, 30, 255]\<rparr> \<and>
   colorFilter \<lparr>width = 1, height = 1, data = [10, 20, 30, 255]\<rparr> (255, 165, 40, 0) =
     \<lparr>width = 1, height = 1, data = [10, 20, 30, 255]\<rparr>"
  using zero_adjustment_is_identity [of "\<lparr>width = 1, height = 1, data = [10, 20, 30, 255]\<rparr>" 255 165 40]
  by (simp add: wf_image_def)

section \<open>Sepia on white\<close>

text \<open>
  C3, as stated, fails: full sepia on one opaque white pixel leaves blue at 239, not 255
  (\<open>255 * (0.272 + 0.534 + 0.131) = 238.935\<close>).
\<close>

theorem sepia_full_on_white_pixel:
  "data (sepia \<lparr>width = 1, height = 1, data = [255, 255, 255, 255]\<rparr> 1) = [255, 255, 239, 255] \<and>
   data (sepia \<lparr>width = 1, height = 1, data = [255, 255, 255, 255]\<rparr> 1) ! 2 \<noteq> 255"
  using sepia_white_values
  by (simp add: sepia_def forEachPixel_def sepia_step_def Let_def rd_def lift3_def wr_def stored_def)

text \<open>
  C3, amended. On an image in which every byte is 255, sepia with \<open>adj = 1\<close> gives every
  pixel red 255 and green 255 (both clamped), blue 239 and alpha 255.
\<close>

theorem sepia_full_on_white:
  assumes "wf_image pixels" and "list_all (\<lambda>c. c = 255) (data pixels)"
    and "p < width pixels * height pixels"
  shows "data (sepia pixels 1) ! (4 * p) = 255 \<and> data (sepia pixels 1) ! (4 * p + 1) = 255 \<and>
     data (sepia pixels 1) ! (4 * p + 2) = 239 \<and> data (sepia pixels 1) ! (4 * p + 3) = 255"
proof -
  have len: "length (data pixels) = 4 * (width pixels * height pixels)"
    using assms(1) by (simp add: wf_image_def)
  have white: "\<forall>j<length (data pixels). data pixels ! j = 255"
    using assms(2) by (simp add: list_all_length)
  have "4 * p + 3 < length (data pixels)" using len assms(3) by simp
  moreover have "(4 * p) mod 4 \<noteq> 2" "(4 * p + 1) mod 4 \<noteq> 2" "(4 * p + 2) mod 4 = 2" "(4 * p + 3) mod 4 \<noteq> 2"
    by presburger+
  ultimately show ?thesis
    using sepia_white_data [OF len white] by (simp add: sepia_def)
qed

theorem sepia_full_on_white_witness:
  "wf_image \<lparr>width = 1, height = 1, data = [255, 255, 255, 255]\<rparr> \<and>
   list_all (\<lambda>c. c = 255) [255, 255, 255, 255 :: nat] \<and> (0::nat) < 1 * 1 \<and>
   data (sepia \<lparr>width = 1, height = 1, data = [255, 255, 255, 255]\<rparr> 1) ! (4 * 0 + 2) = 239"
  using sepia_full_on_white [of "\<lparr>width = 1, height = 1, data = [255, 255, 255, 255]\<rparr>" 0]
  by (simp add: wf_image_def)

section \<open>The convolution against its specification\<close>

text \<open>
  C6. For every image, every kernel of \<open>k * k\<close> weights (so every square kernel of odd side)
  and every pixel \<open>(x, y)\<close>, each of the R, G and B bytes of the result is the sum, in the
  arithmetic of the machine and in the order of the loops, of the weight times the source
  channel over exactly the window positions inside the image (a position outside adds
  nothing; no clamping or wrapping at the edges), clamped to [0,255] and stored as a byte;
  every channel is read from the input image; the alpha byte is the input's at that pixel;
  the size is the input's. This holds for every arithmetic that stores bytes as bytes, so for
  the doubles of the machine and for the arithmetic without rounding of \<open>convolute\<close> above.
\<close>

theorem convolute_kernel_sum:
  assumes "wf_image pixels" and "stores_bytes A" and "length weights = k * k"
    and "x < width pixels" and "y < height pixels" and "c < 3"
  shows "data (convolute_in A pixels weights) ! (4 * (y * width pixels + x) + c) =
       js_byte A (js_clamp A (kernel_sum A pixels weights k x y c)) \<and>
     data (convolute_in A pixels weights) ! (4 * (y * width pixels + x) + 3) =
       data pixels ! (4 * (y * width pixels + x) + 3) \<and>
     length (data (convolute_in A pixels weights)) = length (data pixels) \<and>
     width (convolute_in A pixels weights) = width pixels \<and>
     height (convolute_in A pixels weights) = height pixels"
proof -
  define p where "p = y * width pixels + x"
  have "p < width pixels * height pixels"
    unfolding p_def using assms(4,5) by (rule cell_index)
  then have j3: "4 * p + 3 < length (data pixels)"
    using assms(1) by (simp add: wf_image_def)
  then have jc: "4 * p + c < length (data pixels)"
    using assms(6) by simp
  have out: "data (convolute_in A pixels weights) =
      map (kernel_byte A pixels weights k) [0..<length (data pixels)]"
    by (simp add: convolute_in_data [OF assms(1,2,3)])
  have xy: "p mod width pixels = x" "p div width pixels = y"
    using assms(4) by (simp_all add: p_def)
  have "(4 * p + c) div 4 = p" "(4 * p + c) mod 4 = c" "c \<noteq> 3"
    using assms(6) by simp_all
  then have "kernel_byte A pixels weights k (4 * p + c) =
      js_byte A (js_clamp A (kernel_sum A pixels weights k x y c))"
    using xy by (simp add: kernel_byte_def)
  moreover have "(4 * p + 3) mod 4 = 3" by presburger
  then have "kernel_byte A pixels weights k (4 * p + 3) = data pixels ! (4 * p + 3)"
    unfolding kernel_byte_def by simp
  moreover have "data (convolute_in A pixels weights) ! (4 * p + c) =
      kernel_byte A pixels weights k (4 * p + c)"
    unfolding out using jc by (simp del: upt_Suc)
  moreover have "data (convolute_in A pixels weights) ! (4 * p + 3) =
      kernel_byte A pixels weights k (4 * p + 3)"
    unfolding out using j3 by (simp del: upt_Suc)
  ultimately show ?thesis
    unfolding p_def by (simp add: convolute_in_data [OF assms(1,2,3)])
qed

theorem convolute_kernel_sum_witness:
  "wf_image \<lparr>width = 2, height = 1, data = [10, 20, 30, 255, 40, 50, 60, 255]\<rparr> \<and>
   stores_bytes (rounded_arithmetic round_to_grid) \<and>
   length [Some 0, Some 0, Some 0, Some (1 / 2), Some (3 / 2 :: real), Some 0, Some 0, Some 0, Some 0] = 3 * 3 \<and>
   (1::nat) < 2 \<and> (0::nat) < 1 \<and> (1::nat) < 3 \<and>
   kernel_sum (rounded_arithmetic round_to_grid)
     \<lparr>width = 2, height = 1, data = [10, 20, 30, 255, 40, 50, 60, 255]\<rparr>
     [Some 0, Some 0, Some 0, Some (1 / 2), Some (3 / 2), Some 0, Some 0, Some 0, Some 0] 3 1 0 1 = Some 85 \<and>
   data (convolute_in (rounded_arithmetic round_to_grid)
           \<lparr>width = 2, height = 1, data = [10, 20, 30, 255, 40, 50, 60, 255]\<rparr>
           [Some 0, Some 0, Some 0, Some (1 / 2), Some (3 / 2), Some 0, Some 0, Some 0, Some 0]) ! 5 = 85 \<and>
   data (convolute_in (rounded_arithmetic round_to_grid)
           \<lparr>width = 2, height = 1, data = [10, 20, 30, 255, 40, 50, 60, 255]\<rparr>
           [Some 0, Some 0, Some 0, Some (1 / 2), Some (3 / 2), Some 0, Some 0, Some 0, Some 0]) ! 7 = 255"
  using convolute_kernel_sum [of "\<lparr>width = 2, height = 1, data = [10, 20, 30, 255, 40, 50, 60, 255]\<rparr>"
      "rounded_arithmetic round_to_grid"
      "[Some 0, Some 0, Some 0, Some (1 / 2), Some (3 / 2), Some 0, Some 0, Some 0, Some 0]" 3 1 0 1]
    stores_bytes_rounded [of round_to_grid]
  by (simp add: wf_image_def kernel_sum_rounded_example stored_rounded_example del: One_nat_def)

section \<open>Applying a catalog filter\<close>

text \<open>
  C4. For every image and every filter id, applying the filter with strength 0 returns the
  image itself, byte for byte, and with strength 1 returns what the filter alone returns: the
  blend is not run at strength 1, and at strength 0 it stores the original bytes. The blend
  itself, of an original with any filtered image of its size and its alpha bytes, returns
  the original at strength 0 and the filtered image at strength 1.
\<close>

theorem blend_endpoints:
  assumes "wf_image imageData"
  shows "applyFilter imageData filterId 0 = imageData \<and>
     applyFilter imageData filterId 1 =
       (case getFilterById filterId of None \<Rightarrow> imageData | Some preset \<Rightarrow> preset_apply preset imageData) \<and>
     (frame imageData filtered \<longrightarrow>
        blend (data imageData) filtered 0 = imageData \<and> blend (data imageData) filtered 1 = filtered)"
proof -
  have "blend (data imageData) (preset_apply preset imageData) 0 = imageData"
    if "getFilterById filterId = Some preset" for preset
    using blend_zero [OF assms frame_presets [OF assms getFilterById_in_catalog [OF that]]] .
  then have "applyFilter imageData filterId 0 = imageData \<and>
     applyFilter imageData filterId 1 =
       (case getFilterById filterId of None \<Rightarrow> imageData | Some preset \<Rightarrow> preset_apply preset imageData)"
    by (auto simp: applyFilter_def Let_def getFilterById_normal split: option.split)
  moreover have "blend (data imageData) filtered 0 = imageData" if "frame imageData filtered"
    using blend_zero [OF assms that] .
  moreover have "blend (data imageData) filtered 1 = filtered" if "frame imageData filtered"
    by (rule blend_one) (use that in \<open>simp_all add: frame_def same_alpha_iff\<close>)
  ultimately show ?thesis by blast
qed

theorem blend_endpoints_witness:
  "wf_image \<lparr>width = 1, height = 1, data = [10, 20, 30, 255]\<rparr> \<and>
   frame \<lparr>width = 1, height = 1, data = [10, 20, 30, 255]\<rparr>
         \<lparr>width = 1, height = 1, data = [19, 19, 19, 255]\<rparr> \<and>
   applyFilter \<lparr>width = 1, height = 1, data = [10, 20, 30, 255]\<rparr> ''inkwell'' 0 =
     \<lparr>width = 1, height = 1, data = [10, 20, 30, 255]\<rparr> \<and>
   blend [10, 20, 30, 255] \<lparr>width = 1, height = 1, data = [19, 19, 19, 255]\<rparr> 0 =
     \<lparr>width = 1, height = 1, data = [10, 20, 30, 255]\<rparr> \<and>
   blend [10, 20, 30, 255] \<lparr>width = 1, height = 1, data = [19, 19, 19, 255]\<rparr> 1 =
     \<lparr>width = 1, height = 1, data = [19, 19, 19, 255]\<rparr>"
proof -
  have wf: "wf_image \<lparr>width = 1, height = 1, data = [10, 20, 30, 255]\<rparr>"
    by (simp add: wf_image_def)
  have fr: "frame \<lparr>width = 1, height = 1, data = [10, 20, 30, 255]\<rparr>
                  \<lparr>width = 1, height = 1, data = [19, 19, 19, 255]\<rparr>"
    by (simp add: frame_def wf_image_def same_alpha_def alpha_indices_def upt_rec)
  show ?thesis
    using blend_endpoints [OF wf, of "''inkwell''" "\<lparr>width = 1, height = 1, data = [19, 19, 19, 255]\<rparr>"]
      wf fr
    by simp
qed

lemma no_such_filter: "getFilterById ''no-such-filter'' = None"
  by (simp add: getFilterById_def filterPresets_def)

lemma inkwell_filter: "map_option preset_apply (getFilterById ''inkwell'') = Some inkwell"
  by (simp add: getFilterById_def filterPresets_def)

lemma grayscale_example:
  "grayscale \<lparr>width = 1, height = 1, data = [10, 20, 30, 255]\<rparr> =
     \<lparr>width = 1, height = 1, data = [19, 19, 19, 255]\<rparr>"
  by (simp add: grayscale_def forEachPixel_def grayscale_step_def Let_def rd_def lift3_def wr_def
      stored_def ToUint8Clamp_def)

text \<open>
  C2, as stated, fails: with every collaborator succeeding, a call with an id that is not in
  the catalog succeeds and returns the image as it was, and calls with strength 2 and with
  strength -1 succeed as well.
\<close>

theorem applyFilterToImage_takes_bad_parameters:
  "getFilterById ''no-such-filter'' = None \<and>
   applyFilterToImage
     \<lparr>loaded = Some \<lparr>width = 1, height = 1, data = [10, 20, 30, 255]\<rparr>, context2d = True, blob = True\<rparr>
     ''no-such-filter'' 1 = Inr \<lparr>width = 1, height = 1, data = [10, 20, 30, 255]\<rparr> \<and>
   applyFilterToImage
     \<lparr>loaded = Some \<lparr>width = 1, height = 1, data = [10, 20, 30, 255]\<rparr>, context2d = True, blob = True\<rparr>
     ''inkwell'' 2 = Inr \<lparr>width = 1, height = 1, data = [19, 19, 19, 255]\<rparr> \<and>
   applyFilterToImage
     \<lparr>loaded = Some \<lparr>width = 1, height = 1, data = [10, 20, 30, 255]\<rparr>, context2d = True, blob = True\<rparr>
     ''inkwell'' (- 1) = Inr \<lparr>width = 1, height = 1, data = [1, 21, 41, 255]\<rparr>"
proof -
  have "getFilterById ''inkwell'' \<noteq> None" using inkwell_filter by auto
  then obtain preset where p: "getFilterById ''inkwell'' = Some preset" by auto
  then have a: "preset_apply preset = inkwell" using inkwell_filter by simp
  have b: "blend [10, 20, 30, 255] \<lparr>width = 1, height = 1, data = [19, 19, 19, 255]\<rparr> (- 1) =
      \<lparr>width = 1, height = 1, data = [1, 21, 41, 255]\<rparr>"
    by (simp add: blend_def forEachPixel_def blend_step_def Let_def rd_def lift2_def wr_def
        stored_def ToUint8Clamp_def)
  show ?thesis
    by (simp add: applyFilterToImage_def applyFilter_def no_such_filter p a inkwell_def Let_def
        grayscale_example b del: One_nat_def)
qed

text \<open>
  C2, amended. When the image loads, the canvas has a context and the blob is made, a call
  never fails, whatever the filter id and the strength: with an id that is not in the catalog
  the image is returned as it was; a strength of 1 or more gives what strength 1 gives; a
  strength below 1, also a negative one, goes into the blend, whose stores clamp the bytes.
  No parameter is checked and no InvalidParameter error exists.
\<close>

theorem applyFilterToImage_checks_no_parameter:
  assumes "loaded browser = Some imageData" and "context2d browser" and "blob browser"
  shows "(\<exists>out. applyFilterToImage browser filterId strength = Inr out) \<and>
     (getFilterById filterId = None \<longrightarrow> applyFilterToImage browser filterId strength = Inr imageData) \<and>
     (1 \<le> strength \<longrightarrow>
        applyFilterToImage browser filterId strength = applyFilterToImage browser filterId 1) \<and>
     (strength < 1 \<and> filterId \<noteq> ''normal'' \<longrightarrow>
        (\<forall>preset. getFilterById filterId = Some preset \<longrightarrow>
           applyFilterToImage browser filterId strength =
             Inr (blend (data imageData) (preset_apply preset imageData) strength)))"
  using assms by (auto simp: applyFilterToImage_def applyFilter_def Let_def split: option.split)

theorem applyFilterToImage_checks_no_parameter_witness:
  "loaded \<lparr>loaded = Some \<lparr>width = 1, height = 1, data = [10, 20, 30, 255]\<rparr>, context2d = True, blob = True\<rparr> =
     Some \<lparr>width = 1, height = 1, data = [10, 20, 30, 255]\<rparr> \<and>
   context2d \<lparr>loaded = Some \<lparr>width = 1, height = 1, data = [10, 20, 30, 255]\<rparr>, context2d = True, blob = True\<rparr> \<and>
   blob \<lparr>loaded = Some \<lparr>width = 1, height = 1, data = [10, 20, 30, 255]\<rparr>, context2d = True, blob = True\<rparr> \<and>
   applyFilterToImage
     \<lparr>loaded = Some \<lparr>width = 1, height = 1, data = [10, 20, 30, 255]\<rparr>, context2d = True, blob = True\<rparr>
     ''no-such-filter'' 2 = Inr \<lparr>width = 1, height = 1, data = [10, 20, 30, 255]\<rparr>"
proof -
  let ?b = "\<lparr>loaded = Some \<lparr>width = 1, height = 1, data = [10, 20, 30, 255]\<rparr>, context2d = True, blob = True\<rparr>"
  have h: "loaded ?b = Some \<lparr>width = 1, height = 1, data = [10, 20, 30, 255]\<rparr>" "context2d ?b" "blob ?b"
    by simp_all
  from applyFilterToImage_checks_no_parameter [OF h, of "''no-such-filter''" 2] no_such_filter
  have "applyFilterToImage ?b ''no-such-filter'' 2 = Inr \<lparr>width = 1, height = 1, data = [10, 20, 30, 255]\<rparr>"
    by blast
  with h show ?thesis by blast
qed

section \<open>The round trip through HSV\<close>

text \<open>
  C8. For every RGB triple of bytes that are not all equal, converting to HSV and back with
  every arithmetic operation rounded, as the operations on doubles are, and then rounding
  each resulting channel to the nearest integer gives channels within 1 of the original
  ones. The errors of the rounded operations add up to less than 1/100 in each channel
  before that last rounding.
\<close>

theorem rgb_hsv_round_trip_rounded:
  fixes r g b :: nat
  assumes "rounds_like_double rnd"
    and "r \<le> 255" and "g \<le> 255" and "b \<le> 255" and "\<not> (r = g \<and> g = b)"
  shows "(case RGBtoHSV_rounded rnd (real r) (real g) (real b) of (h, s, v) \<Rightarrow>
           (case HSVtoRGB_rounded rnd h s v of (r', g', b') \<Rightarrow>
              \<bar>round r' - int r\<bar> \<le> 1 \<and> \<bar>round g' - int g\<bar> \<le> 1 \<and> \<bar>round b' - int b\<bar> \<le> 1))"
proof -
  obtain H M S where close: "hsv_close rnd (RGBtoHSV_rounded rnd (real r) (real g) (real b)) H M S"
    and exact: "ramp_rgb M (M * S) H = (real r / 255, real g / 255, real b / 255)"
    using RGBtoHSV_rounded_close [OF assms] by blast
  obtain h s v where hsv: "RGBtoHSV_rounded rnd (real r) (real g) (real b) = (h, s, v)"
    by (cases "RGBtoHSV_rounded rnd (real r) (real g) (real b)") auto
  obtain r' g' b' where rgb: "HSVtoRGB_rounded rnd h s v = (r', g', b')"
    by (cases "HSVtoRGB_rounded rnd h s v") auto
  have "\<bar>r' - 255 * (real r / 255)\<bar> \<le> 1 / 100 \<and> \<bar>g' - 255 * (real g / 255)\<bar> \<le> 1 / 100 \<and>
      \<bar>b' - 255 * (real b / 255)\<bar> \<le> 1 / 100"
    using round_trip_finish [OF assms(1) close [unfolded hsv] exact] unfolding rgb by simp
  then have "round r' = int r" "round g' = int g" "round b' = int b"
    by (simp_all only: round_near)
  then show ?thesis
    by (simp add: hsv rgb)
qed

theorem rgb_hsv_round_trip_rounded_witness:
  "rounds_like_double round_to_grid \<and>
   (10::nat) \<le> 255 \<and> (20::nat) \<le> 255 \<and> (30::nat) \<le> 255 \<and> \<not> ((10::nat) = 20 \<and> (20::nat) = 30) \<and>
   (case RGBtoHSV_rounded round_to_grid (real (10::nat)) (real (20::nat)) (real (30::nat)) of
      (h, s, v) \<Rightarrow>
      (case HSVtoRGB_rounded round_to_grid h s v of (r', g', b') \<Rightarrow>
         \<bar>round r' - int 10\<bar> \<le> 1 \<and> \<bar>round g' - int 20\<bar> \<le> 1 \<and> \<bar>round b' - int 30\<bar> \<le> 1))"
  using rgb_hsv_round_trip_rounded [of round_to_grid 10 20 30] rounds_grid by simp

section \<open>Parameter handling of contrast, brightness and saturation\<close>

lemma contrast_denominator_pos: "adj \<le> 1 \<Longrightarrow> 0 < contrast_denominator adj"
  by (simp add: contrast_denominator_def)

text \<open>
  C9. For every \<open>adj\<close> in [-1,1] the denominator \<open>255 * (259 - adj * 255)\<close> of the contrast
  factor is not zero, so the factor is the quotient itself; at \<open>adj = 1\<close> the denominator is
  \<open>255 * 4\<close>.
\<close>

theorem contrast_no_division_by_zero:
  "(- 1 \<le> adj \<and> adj \<le> 1 \<longrightarrow>
      contrast_denominator adj \<noteq> 0 \<and>
      contrast_factor adj = Some (259 * (adj * 255 + 255) / (255 * (259 - adj * 255)))) \<and>
   contrast_denominator 1 = 255 * 4"
proof -
  have "contrast_denominator adj \<noteq> 0" if "adj \<le> 1"
    using contrast_denominator_pos [OF that] by simp
  moreover have "contrast_denominator 1 = 255 * 4"
    by (simp add: contrast_denominator_def)
  ultimately show ?thesis
    by (simp add: contrast_factor_def contrast_numerator_def contrast_denominator_def)
qed

theorem contrast_no_division_by_zero_witness:
  "- 1 \<le> (1::real) \<and> (1::real) \<le> 1 \<and> contrast_denominator 1 \<noteq> 0 \<and>
   contrast_factor 1 = Some (259 * (1 * 255 + 255) / (255 * (259 - 1 * 255)))"
  using contrast_no_division_by_zero [of 1] by simp

text \<open>
  C10. Brightness with any \<open>adj\<close> is brightness with \<open>adj\<close> clamped into [-1,1] (so
  brightness 5 is brightness 1), and saturation with any \<open>adj\<close> is saturation with \<open>adj\<close>
  raised to at least -1: neither rejects a parameter outside its domain.
\<close>

theorem brightness_saturation_coerce_parameter:
  "brightness pixels adj = brightness pixels (max (- 1) (min 1 adj)) \<and>
   brightness pixels 5 = brightness pixels 1 \<and>
   saturation pixels adj = saturation pixels (max (- 1) adj)"
  by (simp add: brightness_def saturation_def)

end
